theory Spec2Isabelle
  imports Main
begin

section \<open>Texts and the string primitives of the Python runtime\<close>

text \<open>
  A Python \<open>str\<close> is modelled as a \<open>string\<close>: each \<open>char\<close> stands for one code point in the
  range U+0000 .. U+00FF. The character classes below are those of CPython on that range:
  \<open>str.isspace\<close> (used by \<open>strip\<close>, \<open>split()\<close> and the pattern class \<open>\s\<close>), the line
  boundaries of \<open>str.splitlines\<close>, and the word characters of the pattern class \<open>\w\<close>.
\<close>

definition LF :: char where
  "LF = CHR 0x0A"

definition CR :: char where
  "CR = CHR 0x0D"

definition is_space :: "char \<Rightarrow> bool" where
  "is_space c =
     (let n = (of_char c :: nat)
      in (9 \<le> n \<and> n \<le> 13) \<or> (28 \<le> n \<and> n \<le> 32) \<or> n = 133 \<or> n = 160)"

definition is_linebreak :: "char \<Rightarrow> bool" where
  "is_linebreak c =
     (let n = (of_char c :: nat)
      in (10 \<le> n \<and> n \<le> 13) \<or> (28 \<le> n \<and> n \<le> 30) \<or> n = 133)"

definition is_word :: "char \<Rightarrow> bool" where
  "is_word c =
     (let n = (of_char c :: nat)
      in (48 \<le> n \<and> n \<le> 57) \<or> (65 \<le> n \<and> n \<le> 90) \<or> n = 95 \<or> (97 \<le> n \<and> n \<le> 122)
         \<or> n = 170 \<or> n = 178 \<or> n = 179 \<or> n = 181 \<or> n = 185 \<or> n = 186
         \<or> (188 \<le> n \<and> n \<le> 190) \<or> (192 \<le> n \<and> n \<le> 214) \<or> (216 \<le> n \<and> n \<le> 246)
         \<or> (248 \<le> n \<and> n \<le> 255))"

text \<open>The simple lower-case mapping, which case-insensitive patterns compare under.\<close>

definition py_lower :: "char \<Rightarrow> char" where
  "py_lower c =
     (let n = (of_char c :: nat)
      in if (65 \<le> n \<and> n \<le> 90) \<or> (192 \<le> n \<and> n \<le> 214) \<or> (216 \<le> n \<and> n \<le> 222)
         then char_of (n + 32) else c)"

definition startswith :: "string \<Rightarrow> string \<Rightarrow> bool" where
  "startswith s p = (take (length p) s = p)"

definition endswith :: "string \<Rightarrow> string \<Rightarrow> bool" where
  "endswith s p = (length p \<le> length s \<and> drop (length s - length p) s = p)"

definition lstrip :: "string \<Rightarrow> string" where
  "lstrip s = dropWhile is_space s"

definition rstrip :: "string \<Rightarrow> string" where
  "rstrip s = rev (dropWhile is_space (rev s))"

definition strip :: "string \<Rightarrow> string" where
  "strip s = rstrip (lstrip s)"

text \<open>
  \<open>str.splitlines()\<close>: a line ends at a line boundary, CR LF counts as one boundary, the
  boundaries are dropped, and text after the last boundary is a line only when it is not empty.
\<close>

fun splitlines_from :: "string \<Rightarrow> string \<Rightarrow> string list" where
  "splitlines_from cur [] = (if cur = [] then [] else [cur])"
| "splitlines_from cur [c] = (if is_linebreak c then [cur] else [cur @ [c]])"
| "splitlines_from cur (c # d # cs) =
     (if c = CR \<and> d = LF then cur # splitlines_from [] cs
      else if is_linebreak c then cur # splitlines_from [] (d # cs)
      else splitlines_from (cur @ [c]) (d # cs))"

definition splitlines :: "string \<Rightarrow> string list" where
  "splitlines s = splitlines_from [] s"

text \<open>\<open>str.split()\<close> without a separator: the maximal runs of non-whitespace.\<close>

function split_ws :: "string \<Rightarrow> string list" where
  "split_ws s =
     (case dropWhile is_space s of
        [] \<Rightarrow> []
      | c # cs \<Rightarrow> takeWhile (\<lambda>x. \<not> is_space x) (c # cs)
                 # split_ws (dropWhile (\<lambda>x. \<not> is_space x) (c # cs)))"
  by pat_completeness auto
termination
proof (relation "measure length")
  show "wf (measure length)" by simp
next
  fix s :: string and c cs
  assume h: "dropWhile is_space s = c # cs"
  have "length (dropWhile (\<lambda>x. \<not> is_space x) (c # cs)) \<le> length (c # cs)"
    by (rule length_dropWhile_le)
  moreover have "\<not> is_space c"
    using h hd_dropWhile [of is_space s] by (metis list.sel(1) list.distinct(1))
  then have "dropWhile (\<lambda>x. \<not> is_space x) (c # cs) = dropWhile (\<lambda>x. \<not> is_space x) cs"
    by simp
  moreover have "length (c # cs) \<le> length s"
    using h length_dropWhile_le [of is_space s] by simp
  moreover have "length (dropWhile (\<lambda>x. \<not> is_space x) cs) \<le> length cs"
    by (rule length_dropWhile_le)
  ultimately show "(dropWhile (\<lambda>x. \<not> is_space x) (c # cs), s) \<in> measure length"
    by simp
qed

declare split_ws.simps [simp del]

text \<open>\<open>sep.join(parts)\<close>.\<close>

fun str_join :: "string \<Rightarrow> string list \<Rightarrow> string" where
  "str_join sep [] = []"
| "str_join sep [x] = x"
| "str_join sep (x # y # ys) = x @ sep @ str_join sep (y # ys)"

text \<open>\<open>s.find(p)\<close>: the index of the first occurrence of \<open>p\<close>, or \<open>-1\<close>.\<close>

fun find_from :: "string \<Rightarrow> string \<Rightarrow> nat \<Rightarrow> int" where
  "find_from p [] i = (if p = [] then int i else - 1)"
| "find_from p (c # cs) i = (if startswith (c # cs) p then int i else find_from p cs (Suc i))"

definition str_find :: "string \<Rightarrow> string \<Rightarrow> int" where
  "str_find s p = find_from p s 0"

section \<open>The backtracking pattern matcher of module \<open>re\<close>\<close>

text \<open>
  The patterns of the program are sequences of atoms: literals, repetitions of a character
  class, anchors and group marks. The matcher tries the alternatives of an atom in the order
  of \<open>re\<close>: a greedy repetition from the longest run down, a lazy one from the empty run up,
  an optional literal first with and then without it. The first alternative under which the
  rest of the pattern matches is the match.
\<close>

datatype cset = Ch char | WS | Dot | Neg "cset list"

fun cset_mem :: "cset \<Rightarrow> char \<Rightarrow> bool" where
  "cset_mem (Ch a) c = (c = a)"
| "cset_mem WS c = is_space c"
| "cset_mem Dot c = True"
| "cset_mem (Neg cs) c = (\<not> list_ex (\<lambda>x. cset_mem x c) cs)"

datatype atom =
    Lit string
  | LitI string
  | Opt string
  | Star cset
  | Plus cset
  | StarLazy cset
  | Bol
  | Eol
  | WordB
  | GOpen nat
  | GClose nat

type_synonym rmatch = "string \<times> string \<times> (nat \<times> string) list"

definition run_len :: "cset \<Rightarrow> string \<Rightarrow> nat" where
  "run_len cs a = length (takeWhile (cset_mem cs) a)"

fun try_greedy :: "(nat \<Rightarrow> 'a option) \<Rightarrow> nat \<Rightarrow> 'a option" where
  "try_greedy f 0 = f 0"
| "try_greedy f (Suc k) = (case f (Suc k) of Some r \<Rightarrow> Some r | None \<Rightarrow> try_greedy f k)"

fun try_lazy :: "(nat \<Rightarrow> 'a option) \<Rightarrow> nat \<Rightarrow> nat \<Rightarrow> 'a option" where
  "try_lazy f k 0 = f k"
| "try_lazy f k (Suc d) = (case f k of Some r \<Rightarrow> Some r | None \<Rightarrow> try_lazy f (Suc k) d)"

definition ci_prefix :: "string \<Rightarrow> string \<Rightarrow> bool" where
  "ci_prefix a p = (length p \<le> length a \<and> map py_lower (take (length p) a) = map py_lower p)"

definition at_word_boundary :: "string \<Rightarrow> string \<Rightarrow> bool" where
  "at_word_boundary b a =
     ((b \<noteq> [] \<and> is_word (last b)) \<noteq> (a \<noteq> [] \<and> is_word (hd a)))"

text \<open>
  \<open>rx_run r b a ms gs\<close> matches the atoms \<open>r\<close> with the cursor between \<open>b\<close> (the text before
  it) and \<open>a\<close> (the text after it); \<open>ms\<close> holds the start offsets of the opened groups and
  \<open>gs\<close> the text of the closed ones.
\<close>

fun rx_run ::
  "atom list \<Rightarrow> string \<Rightarrow> string \<Rightarrow> (nat \<times> nat) list \<Rightarrow> (nat \<times> string) list \<Rightarrow> rmatch option"
where
  "rx_run [] b a ms gs = Some (b, a, gs)"
| "rx_run (Lit p # r) b a ms gs =
     (if startswith a p then rx_run r (b @ p) (drop (length p) a) ms gs else None)"
| "rx_run (LitI p # r) b a ms gs =
     (if ci_prefix a p then rx_run r (b @ take (length p) a) (drop (length p) a) ms gs
      else None)"
| "rx_run (Opt p # r) b a ms gs =
     (case (if startswith a p then rx_run r (b @ p) (drop (length p) a) ms gs else None) of
        Some m \<Rightarrow> Some m
      | None \<Rightarrow> rx_run r b a ms gs)"
| "rx_run (Star cs # r) b a ms gs =
     try_greedy (\<lambda>k. rx_run r (b @ take k a) (drop k a) ms gs) (run_len cs a)"
| "rx_run (Plus cs # r) b a ms gs =
     (if run_len cs a = 0 then None
      else try_greedy (\<lambda>k. rx_run r (b @ take (Suc k) a) (drop (Suc k) a) ms gs)
             (run_len cs a - 1))"
| "rx_run (StarLazy cs # r) b a ms gs =
     try_lazy (\<lambda>k. rx_run r (b @ take k a) (drop k a) ms gs) 0 (run_len cs a)"
| "rx_run (Bol # r) b a ms gs = (if b = [] then rx_run r b a ms gs else None)"
| "rx_run (Eol # r) b a ms gs = (if a = [] \<or> a = [LF] then rx_run r b a ms gs else None)"
| "rx_run (WordB # r) b a ms gs = (if at_word_boundary b a then rx_run r b a ms gs else None)"
| "rx_run (GOpen n # r) b a ms gs = rx_run r b a ((n, length b) # ms) gs"
| "rx_run (GClose n # r) b a ms gs =
     (case map_of ms n of
        Some i \<Rightarrow> rx_run r b a ms ((n, drop i b) # gs)
      | None \<Rightarrow> None)"

text \<open>\<open>pattern.match(s)\<close> matches at the start of \<open>s\<close>; \<open>pattern.search(s)\<close> at the
  first offset of \<open>s\<close> where there is a match.\<close>

definition rx_match :: "atom list \<Rightarrow> string \<Rightarrow> rmatch option" where
  "rx_match r s = rx_run r [] s [] []"

fun search_from :: "atom list \<Rightarrow> string \<Rightarrow> string \<Rightarrow> rmatch option" where
  "search_from r b [] = rx_run r b [] [] []"
| "search_from r b (c # cs) =
     (case rx_run r b (c # cs) [] [] of
        Some m \<Rightarrow> Some m
      | None \<Rightarrow> search_from r (b @ [c]) cs)"

definition rx_search :: "atom list \<Rightarrow> string \<Rightarrow> rmatch option" where
  "rx_search r s = search_from r [] s"

text \<open>\<open>m.group(n)\<close>; every group of the patterns below takes part in every match.\<close>

definition mgroup :: "rmatch \<Rightarrow> nat \<Rightarrow> string" where
  "mgroup m n = (case map_of (snd (snd m)) n of Some g \<Rightarrow> g | None \<Rightarrow> [])"

section \<open>Response text extractor\<close>

text \<open>The pattern \<^verbatim>\<open>```diff\s*(.*?)\s*```\<close> with flag DOTALL.\<close>

definition DIFF_FENCE :: "atom list" where
  "DIFF_FENCE =
     [Lit ''```diff'', Star WS, GOpen 1, StarLazy Dot, GClose 1, Star WS, Lit ''```'']"

definition extract_patch :: "string \<Rightarrow> string option" where
  "extract_patch text =
     (case rx_search DIFF_FENCE text of
        Some m \<Rightarrow> Some (strip (mgroup m 1) @ [LF])
      | None \<Rightarrow>
          (let idx = str_find text ''diff --git ''
           in if idx \<noteq> - 1 then Some (strip (drop (nat idx) text) @ [LF]) else None))"

section \<open>Patch safety gate\<close>

definition is_git_dir_path :: "string \<Rightarrow> bool" where
  "is_git_dir_path path = (path = ''.git'' \<or> startswith path ''.git/'')"

text \<open>The body of the loop over the lines of the diff; \<open>True\<close> is the early return.\<close>

fun touches_loop :: "string list \<Rightarrow> bool" where
  "touches_loop [] = False"
| "touches_loop (line # rest) =
     (if startswith line ''diff --git '' then
        (let parts = split_ws line in
         if length parts \<ge> 4 then
           (let a_path = parts ! 2;
                b_path = parts ! 3;
                a_path = (if startswith a_path ''a/'' then drop 2 a_path else a_path);
                b_path = (if startswith b_path ''b/'' then drop 2 b_path else b_path)
            in if is_git_dir_path a_path \<or> is_git_dir_path b_path then True
               else touches_loop rest)
         else touches_loop rest)
      else if startswith line ''--- '' \<or> startswith line ''+++ '' then
        (let parts = split_ws line in
         if length parts \<ge> 2 then
           (let path = parts ! 1 in
            if path = ''/dev/null'' then touches_loop rest
            else
              (let path = (if startswith path ''a/'' \<or> startswith path ''b/''
                           then drop 2 path else path)
               in if is_git_dir_path path then True else touches_loop rest))
         else touches_loop rest)
      else touches_loop rest)"

definition diff_touches_git_dir :: "string \<Rightarrow> bool" where
  "diff_touches_git_dir diff_text = touches_loop (splitlines diff_text)"

section \<open>Post-apply steps extractor\<close>

text \<open>
  The patterns \<^verbatim>\<open>^\s*#+\s*Post-apply steps\s*$\<close> and \<^verbatim>\<open>^\s*Post-apply steps\s*:?\s*$\<close>,
  both with flag IGNORECASE, and \<^verbatim>\<open>^\s*#+\s*\S+\<close>.
\<close>

definition HEADING_MARKED :: "atom list" where
  "HEADING_MARKED =
     [Bol, Star WS, Plus (Ch (CHR ''#'')), Star WS, LitI ''Post-apply steps'', Star WS, Eol]"

definition HEADING_PLAIN :: "atom list" where
  "HEADING_PLAIN =
     [Bol, Star WS, LitI ''Post-apply steps'', Star WS, Opt '':'', Star WS, Eol]"

definition NEXT_HEADING :: "atom list" where
  "NEXT_HEADING = [Bol, Star WS, Plus (Ch (CHR ''#'')), Star WS, Plus (Neg [WS])]"

text \<open>The first loop: the index after the first heading line, counted from \<open>i\<close>.\<close>

fun find_start :: "string list \<Rightarrow> nat \<Rightarrow> nat option" where
  "find_start [] i = None"
| "find_start (line # rest) i =
     (if rx_match HEADING_MARKED line \<noteq> None \<or> rx_match HEADING_PLAIN line \<noteq> None
      then Some (i + 1)
      else find_start rest (i + 1))"

text \<open>The second loop: it appends lines to \<open>collected\<close> until the \<open>break\<close>.\<close>

fun collect_steps :: "string list \<Rightarrow> string list \<Rightarrow> string list" where
  "collect_steps collected [] = collected"
| "collect_steps collected (line # rest) =
     (if rx_match NEXT_HEADING line \<noteq> None then collected
      else collect_steps (collected @ [line]) rest)"

definition extract_post_apply_steps :: "string \<Rightarrow> string option" where
  "extract_post_apply_steps text =
     (let lines = splitlines text in
      case find_start lines 0 of
        None \<Rightarrow> None
      | Some start_idx \<Rightarrow>
          (let collected = collect_steps [] (drop start_idx lines);
               steps = strip (str_join [LF] collected)
           in if steps \<noteq> [] then Some steps else None))"

section \<open>Secret sanitizer\<close>

text \<open>
  The patterns \<^verbatim>\<open>(?i)\bextraheader\b\<close>, \<^verbatim>\<open>^(\s*url\s*=\s*)(\S+)(\s*)$\<close> and
  \<^verbatim>\<open>^(https?://)([^/@\s]+@)(.+)$\<close>; without flag DOTALL the dot matches every character
  but the newline.
\<close>

definition EXTRAHEADER :: "atom list" where
  "EXTRAHEADER = [WordB, LitI ''extraheader'', WordB]"

definition URL_LINE :: "atom list" where
  "URL_LINE =
     [Bol, GOpen 1, Star WS, Lit ''url'', Star WS, Lit ''='', Star WS, GClose 1,
      GOpen 2, Plus (Neg [WS]), GClose 2, GOpen 3, Star WS, GClose 3, Eol]"

definition HTTP_URL_WITH_USERINFO :: "atom list" where
  "HTTP_URL_WITH_USERINFO =
     [Bol, GOpen 1, Lit ''http'', Opt ''s'', Lit ''://'', GClose 1,
      GOpen 2, Plus (Neg [Ch (CHR ''/''), Ch (CHR ''@''), WS]), Lit ''@'', GClose 2,
      GOpen 3, Plus (Neg [Ch LF]), GClose 3, Eol]"

text \<open>\<open>line.split("=", 1)\<close> on a line that has an equals sign: the text before the first
  one and the text after it.\<close>

definition split_eq_1 :: "string \<Rightarrow> string \<times> string" where
  "split_eq_1 line =
     (takeWhile (\<lambda>c. c \<noteq> CHR ''='') line, drop 1 (dropWhile (\<lambda>c. c \<noteq> CHR ''='') line))"

text \<open>The loop over the lines; every branch appends one line to \<open>sanitized_lines\<close>.\<close>

fun sanitize_loop :: "string list \<Rightarrow> string list \<Rightarrow> string list" where
  "sanitize_loop sanitized_lines [] = sanitized_lines"
| "sanitize_loop sanitized_lines (line # rest) =
     (if rx_search EXTRAHEADER line \<noteq> None then
        (if CHR ''='' \<in> set line then
           (let prefix = fst (split_eq_1 line)
            in sanitize_loop (sanitized_lines @ [prefix @ ''= <redacted>'']) rest)
         else sanitize_loop (sanitized_lines @ [''<redacted>'']) rest)
      else
        (case rx_search URL_LINE line of
           Some m \<Rightarrow>
             (let prefix = mgroup m 1;
                  url = mgroup m 2;
                  suffix = mgroup m 3;
                  url = (case rx_match HTTP_URL_WITH_USERINFO url of
                           Some url_match \<Rightarrow> mgroup url_match 1 @ mgroup url_match 3
                         | None \<Rightarrow> url)
              in sanitize_loop (sanitized_lines @ [rstrip (prefix @ url @ suffix)]) rest)
         | None \<Rightarrow> sanitize_loop (sanitized_lines @ [rstrip line]) rest))"

definition sanitize_git_config :: "string \<Rightarrow> string" where
  "sanitize_git_config raw =
     (let sanitized_lines = sanitize_loop [] (splitlines raw);
          trailing_newline = (if endswith raw [LF] then [LF] else [])
      in str_join [LF] sanitized_lines @ trailing_newline)"

section \<open>Errors and the rendering of integers\<close>

text \<open>
  What the environment of the program raises: \<open>subprocess.CalledProcessError\<close> when git ends
  with a non-zero status, \<open>FileNotFoundError\<close> for a path that is not there, and \<open>OSError\<close>
  for every other error of the operating system. \<open>FileNotFoundError\<close> is a subclass of
  \<open>OSError\<close>: a handler for \<open>OSError\<close> catches both.
\<close>

datatype env_error = CalledProcessError | FileNotFoundError | OSError

definition is_OSError :: "env_error \<Rightarrow> bool" where
  "is_OSError e = (e = FileNotFoundError \<or> e = OSError)"

text \<open>The exceptions that leave a function: the two that the program raises itself, with
  their messages, and those of the environment that it does not catch.\<close>

datatype error = RuntimeError string | ValueError string | EnvError env_error

text \<open>\<open>str(n)\<close> of an integer, as an f-string renders it.\<close>

function str_nat :: "nat \<Rightarrow> string" where
  "str_nat n =
     (if n < 10 then [char_of (48 + n)]
      else str_nat (n div 10) @ [char_of (48 + n mod 10)])"
  by pat_completeness auto
termination
  by (relation "measure (\<lambda>n. n)") auto

declare str_nat.simps [simp del]

definition str_int :: "int \<Rightarrow> string" where
  "str_int i = (if i < 0 then CHR ''-'' # str_nat (nat (- i)) else str_nat (nat i))"

section \<open>Archive builder\<close>

text \<open>
  The file system, git and the zip library are the environment of the builder. A path below
  the repository root is named by its relative text, as git lists it and as \<open>as_posix\<close> gives
  it back. For each path the environment says what the builder can ask of it: the tests
  \<open>exists\<close>, \<open>is_file\<close>, \<open>is_dir\<close> and \<open>is_symlink\<close>, the outcome of \<open>os.readlink\<close>, the outcome
  of storing the file with \<open>ZipFile.write\<close>, and the outcome of \<open>read_text\<close>. An outcome is
  a text or an error that the call raises. An archive is the list of its entries, each a name
  with its payload. The warnings that the builder prints on the error stream are left out.
\<close>

record file_info =
  path_exists :: bool
  is_file :: bool
  is_dir :: bool
  is_symlink :: bool
  readlink :: "env_error + string"
  file_bytes :: "env_error + string"
  read_text :: "env_error + string"

text \<open>
  The environment of one build: the outcome of \<open>mkdir\<close> for the artifact directory, the
  output of a git command (split at its NUL bytes and decoded), the outcome of opening and of
  closing the archive, whether \<open>relative_to(artifact_dir)\<close> succeeds for a path, the file
  system, the sorted result of \<open>rglob("*")\<close> below a directory, and the outcome of \<open>stat\<close> on
  the archive once it holds the given entries.
\<close>

type_synonym zip_entry = "string \<times> string"

record env =
  mkdir :: "env_error option"
  run_git :: "string list \<Rightarrow> env_error + string list"
  zip_open :: "env_error option"
  zip_close :: "env_error option"
  inside_artifact_dir :: "string \<Rightarrow> bool"
  fs :: "string \<Rightarrow> file_info"
  rglob :: "string \<Rightarrow> string list"
  stat_size :: "zip_entry list \<Rightarrow> env_error + int"

text \<open>\<open>_git_ls_files\<close>: the non-empty pieces of the output; an error of git is not caught.\<close>

definition git_ls_files :: "env \<Rightarrow> string list \<Rightarrow> env_error + string list" where
  "git_ls_files E extra_args =
     (case run_git E (''ls-files'' # ''-z'' # extra_args) of
        Inl e \<Rightarrow> Inl e
      | Inr raw \<Rightarrow> Inr (filter (\<lambda>p. p \<noteq> []) raw))"

text \<open>\<open>_iter_repo_files_excluding_ignored\<close>: tracked files, then untracked files that are
  not ignored, each path once, in the order of its first listing.\<close>

fun iter_loop :: "string set \<Rightarrow> string list \<Rightarrow> string list \<Rightarrow> string list" where
  "iter_loop seen ordered [] = ordered"
| "iter_loop seen ordered (rel # rels) =
     (if rel = [] \<or> rel \<in> seen then iter_loop seen ordered rels
      else iter_loop (insert rel seen) (ordered @ [rel]) rels)"

definition iter_repo_files_excluding_ignored :: "env \<Rightarrow> env_error + string list" where
  "iter_repo_files_excluding_ignored E =
     (case git_ls_files E [] of
        Inl e \<Rightarrow> Inl e
      | Inr tracked \<Rightarrow>
          (case git_ls_files E [''--others'', ''--exclude-standard''] of
             Inl e \<Rightarrow> Inl e
           | Inr untracked \<Rightarrow> Inr (iter_loop {} [] (tracked @ untracked))))"

text \<open>\<open>_zip_add_file\<close>: a link is stored as its target; a file that has disappeared is
  skipped with a warning; every other error leaves the function.\<close>

definition zip_add_file :: "zip_entry list \<Rightarrow> file_info \<Rightarrow> string \<Rightarrow> error + zip_entry list" where
  "zip_add_file zf file_path arcname =
     (if is_symlink file_path then
        (case readlink file_path of
           Inr link_target \<Rightarrow> Inr (zf @ [(arcname, link_target)])
         | Inl e \<Rightarrow> if e = FileNotFoundError then Inr zf else Inl (EnvError e))
      else
        (case file_bytes file_path of
           Inr data \<Rightarrow> Inr (zf @ [(arcname, data)])
         | Inl e \<Rightarrow> if e = FileNotFoundError then Inr zf else Inl (EnvError e)))"

text \<open>The loop of \<open>_create_repo_bundle_zip\<close> over the listed files.\<close>

fun bundle_loop :: "env \<Rightarrow> zip_entry list \<Rightarrow> string list \<Rightarrow> error + zip_entry list" where
  "bundle_loop E zf [] = Inr zf"
| "bundle_loop E zf (rel # files) =
     (if is_dir (fs E rel) then bundle_loop E zf files
      else if inside_artifact_dir E rel then bundle_loop E zf files
      else if startswith rel ''.git/'' \<or> rel = ''.git'' then bundle_loop E zf files
      else (case zip_add_file zf (fs E rel) rel of
              Inl e \<Rightarrow> Inl e
            | Inr zf' \<Rightarrow> bundle_loop E zf' files))"

text \<open>\<open>_zip_add_git_dir\<close>. The last component of a path is its \<open>name\<close>.\<close>

definition path_name :: "string \<Rightarrow> string" where
  "path_name p = rev (takeWhile (\<lambda>c. c \<noteq> CHR ''/'') (rev p))"

definition allow_roots :: "string list" where
  "allow_roots =
     [''.git/HEAD'', ''.git/packed-refs'', ''.git/refs'', ''.git/info/exclude'',
      ''.git/description'', ''.git/config'']"

fun children_loop :: "env \<Rightarrow> zip_entry list \<Rightarrow> string list \<Rightarrow> error + zip_entry list" where
  "children_loop E zf [] = Inr zf"
| "children_loop E zf (child # children) =
     (if is_dir (fs E child) then children_loop E zf children
      else (case zip_add_file zf (fs E child) child of
              Inl e \<Rightarrow> Inl e
            | Inr zf' \<Rightarrow> children_loop E zf' children))"

fun metadata_loop :: "env \<Rightarrow> zip_entry list \<Rightarrow> string list \<Rightarrow> error + zip_entry list" where
  "metadata_loop E zf [] = Inr zf"
| "metadata_loop E zf (root # roots) =
     (if \<not> path_exists (fs E root) then metadata_loop E zf roots
      else if is_dir (fs E root) then
        (case children_loop E zf (rglob E root) of
           Inl e \<Rightarrow> Inl e
         | Inr zf' \<Rightarrow> metadata_loop E zf' roots)
      else if root = ''.git/config'' then
        (case read_text (fs E root) of
           Inr text \<Rightarrow> metadata_loop E (zf @ [(root, sanitize_git_config text)]) roots
         | Inl e \<Rightarrow> if is_OSError e then metadata_loop E zf roots else Inl (EnvError e))
      else (case zip_add_file zf (fs E root) root of
              Inl e \<Rightarrow> Inl e
            | Inr zf' \<Rightarrow> metadata_loop E zf' roots))"

fun full_loop :: "env \<Rightarrow> zip_entry list \<Rightarrow> string list \<Rightarrow> error + zip_entry list" where
  "full_loop E zf [] = Inr zf"
| "full_loop E zf (child # children) =
     (if is_dir (fs E child) then full_loop E zf children
      else if endswith (path_name child) ''.lock'' then full_loop E zf children
      else (case zip_add_file zf (fs E child) child of
              Inl e \<Rightarrow> Inl e
            | Inr zf' \<Rightarrow> full_loop E zf' children))"

definition zip_add_git_dir :: "env \<Rightarrow> zip_entry list \<Rightarrow> string \<Rightarrow> error + zip_entry list" where
  "zip_add_git_dir E zf include_git =
     (if include_git = ''none'' then Inr zf
      else if is_file (fs E ''.git'') then zip_add_file zf (fs E ''.git'') ''.git''
      else if \<not> is_dir (fs E ''.git'') then Inr zf
      else if include_git = ''metadata'' then metadata_loop E zf allow_roots
      else if include_git \<noteq> ''full'' then
        Inl (ValueError (''Unknown --include-git value: '' @ include_git))
      else full_loop E zf (rglob E ''.git''))"

text \<open>
  The \<open>with\<close> statement of \<open>_create_repo_bundle_zip\<close>: the archive is opened, filled and
  closed. It is closed also when its body raises, and an error of closing is then the one
  that leaves the statement.
\<close>

definition with_zip_file :: "env \<Rightarrow> string list \<Rightarrow> string \<Rightarrow> error + zip_entry list" where
  "with_zip_file E files include_git =
     (case zip_open E of
        Some e \<Rightarrow> Inl (EnvError e)
      | None \<Rightarrow>
          (let body = (case bundle_loop E [] files of
                         Inl e \<Rightarrow> Inl e
                       | Inr zf \<Rightarrow> zip_add_git_dir E zf include_git)
           in case zip_close E of
                Some e \<Rightarrow> Inl (EnvError e)
              | None \<Rightarrow> body))"

text \<open>\<open>_create_repo_bundle_zip\<close>. A path of the result is the list of its components.\<close>

definition create_repo_bundle_zip :: "env \<Rightarrow> string list \<Rightarrow> string \<Rightarrow> int \<Rightarrow> error + string list"
where
  "create_repo_bundle_zip E artifact_dir include_git max_zip_bytes =
     (case mkdir E of
        Some e \<Rightarrow> Inl (EnvError e)
      | None \<Rightarrow>
          (let zip_path = artifact_dir @ [''bundle.zip'']
           in case iter_repo_files_excluding_ignored E of
                Inl e \<Rightarrow> Inl (EnvError e)
              | Inr files \<Rightarrow>
                  (case with_zip_file E files include_git of
                     Inl e \<Rightarrow> Inl e
                   | Inr zf \<Rightarrow>
                       (case stat_size E zf of
                          Inl e \<Rightarrow> Inl (EnvError e)
                        | Inr st_size \<Rightarrow>
                            if st_size > max_zip_bytes then
                              Inl (RuntimeError
                                (''Bundle zip is '' @ str_int st_size @ '' bytes, exceeds limit ''
                                 @ str_int max_zip_bytes
                                 @ ''. Use --max-zip-bytes to raise the limit or set --include-git none.''))
                            else Inr zip_path))))"

section \<open>Wait coordinator, local-file mode\<close>

text \<open>
  One turn of the loop observes the clock and the response file. \<open>Late\<close> is a turn at which
  the clock is past the deadline; otherwise the file is absent, unreadable, or read with some
  content. The loop runs over the observations of its turns; when they are used up it is
  still waiting, which is the result \<open>None\<close>. The digest function of \<open>hashlib\<close> is a
  parameter. The events record the calls of \<open>_extract_patch\<close>, the warnings and the sleeps.
\<close>

datatype poll = Late | Absent | Unreadable | Content string

datatype event = Extracted string | Warned | Slept int

text \<open>The truth value of \<open>_extract_patch(text)\<close> in a condition.\<close>

definition truthy :: "string option \<Rightarrow> bool" where
  "truthy r = (case r of None \<Rightarrow> False | Some p \<Rightarrow> p \<noteq> [])"

fun wait_loop ::
  "(string \<Rightarrow> 'd) \<Rightarrow> string \<Rightarrow> int \<Rightarrow> 'd option \<Rightarrow> event list \<Rightarrow> poll list
     \<Rightarrow> (error + string) option \<times> 'd option \<times> event list"
where
  "wait_loop sha256 response_path poll_interval_seconds last_seen_digest log [] =
     (None, last_seen_digest, log)"
| "wait_loop sha256 response_path poll_interval_seconds last_seen_digest log (Late # polls) =
     (Some (Inl (RuntimeError (''Timed out waiting for manual response at: '' @ response_path))),
      last_seen_digest, log)"
| "wait_loop sha256 response_path poll_interval_seconds last_seen_digest log (Absent # polls) =
     wait_loop sha256 response_path poll_interval_seconds last_seen_digest
       (log @ [Slept (max 1 poll_interval_seconds)]) polls"
| "wait_loop sha256 response_path poll_interval_seconds last_seen_digest log
     (Unreadable # polls) =
     wait_loop sha256 response_path poll_interval_seconds last_seen_digest
       (log @ [Slept (max 1 poll_interval_seconds)]) polls"
| "wait_loop sha256 response_path poll_interval_seconds last_seen_digest log
     (Content text # polls) =
     (let digest = sha256 text in
      if last_seen_digest \<noteq> Some digest then
        (if truthy (extract_patch text) then
           (Some (Inr text), Some digest, log @ [Extracted text])
         else if strip text \<noteq> [] then
           wait_loop sha256 response_path poll_interval_seconds (Some digest)
             (log @ [Extracted text, Warned, Slept (max 1 poll_interval_seconds)]) polls
         else
           wait_loop sha256 response_path poll_interval_seconds (Some digest)
             (log @ [Extracted text, Slept (max 1 poll_interval_seconds)]) polls)
      else
        wait_loop sha256 response_path poll_interval_seconds last_seen_digest
          (log @ [Slept (max 1 poll_interval_seconds)]) polls)"

definition wait_for_manual_response ::
  "(string \<Rightarrow> 'd) \<Rightarrow> string \<Rightarrow> int \<Rightarrow> poll list
     \<Rightarrow> (error + string) option \<times> 'd option \<times> event list"
where
  "wait_for_manual_response sha256 response_path poll_interval_seconds polls =
     wait_loop sha256 response_path poll_interval_seconds None [] polls"

section \<open>The gate, in the words of the specification\<close>

text \<open>
  A metadata line trips the gate when the path it names, with the conventional prefix
  removed, is the internals directory or lies under it. For a \<open>diff --git\<close> line the paths
  are the third token (prefix \<open>a/\<close>) and the fourth token (prefix \<open>b/\<close>); for a \<open>---\<close> or
  \<open>+++\<close> line the path is the second token (either prefix), and the marker \<open>/dev/null\<close>
  names no path.
\<close>

definition unprefixed :: "string \<Rightarrow> string \<Rightarrow> string" where
  "unprefixed p s = (if startswith s p then drop (length p) s else s)"

definition is_internals_path :: "string \<Rightarrow> bool" where
  "is_internals_path p = (p = ''.git'' \<or> (\<exists>rest. p = ''.git/'' @ rest))"

definition header_line_trips :: "string \<Rightarrow> bool" where
  "header_line_trips line =
     (startswith line ''diff --git '' \<and>
      (\<exists>t1 t2 t3 t4 more. split_ws line = t1 # t2 # t3 # t4 # more \<and>
         (is_internals_path (unprefixed ''a/'' t3) \<or> is_internals_path (unprefixed ''b/'' t4))))"

definition file_line_trips :: "string \<Rightarrow> bool" where
  "file_line_trips line =
     ((startswith line ''--- '' \<or> startswith line ''+++ '') \<and>
      (\<exists>t1 t2 more. split_ws line = t1 # t2 # more \<and> t2 \<noteq> ''/dev/null'' \<and>
         is_internals_path (if startswith t2 ''a/'' \<or> startswith t2 ''b/'' then drop 2 t2 else t2)))"

section \<open>The extractor, in the words of the specification\<close>

text \<open>
  The first occurrence of a text \<open>p\<close> in a text \<open>s\<close> is the least offset at which \<open>s\<close> goes on
  with \<open>p\<close>. The first fenced block tagged as a diff opens with the first occurrence of
  \<open>```diff\<close> and closes with the first occurrence of \<open>```\<close> after that tag; its interior
  is the text between the two.
\<close>

definition first_occurrence :: "string \<Rightarrow> string \<Rightarrow> nat \<Rightarrow> bool" where
  "first_occurrence p s k =
     (k \<le> length s \<and> startswith (drop k s) p \<and> (\<forall>j<k. \<not> startswith (drop j s) p))"

definition first_index :: "string \<Rightarrow> string \<Rightarrow> nat option" where
  "first_index s p = (if str_find s p = - 1 then None else Some (nat (str_find s p)))"

definition fenced_diff_block :: "string \<Rightarrow> string option" where
  "fenced_diff_block text =
     (case first_index text ''```diff'' of
        None \<Rightarrow> None
      | Some i \<Rightarrow>
          (case first_index (drop (i + 7) text) ''```'' of
             None \<Rightarrow> None
           | Some j \<Rightarrow> Some (take j (drop (i + 7) text))))"

section \<open>What a pattern matches\<close>

text \<open>
  \<open>matches_at\<close> says that the matcher finds a match at the cursor; \<open>ci_equal\<close> compares
  two texts without regard to case, as a literal under flag IGNORECASE is compared.
\<close>

definition matches_at ::
  "atom list \<Rightarrow> string \<Rightarrow> string \<Rightarrow> (nat \<times> nat) list \<Rightarrow> (nat \<times> string) list \<Rightarrow> bool" where
  "matches_at r b a ms gs = (rx_run r b a ms gs \<noteq> None)"

definition ci_equal :: "string \<Rightarrow> string \<Rightarrow> bool" where
  "ci_equal w p = (map py_lower w = map py_lower p)"

section \<open>The steps extractor, in the words of the specification\<close>

text \<open>
  A heading line of the steps section is, between optional whitespace, either one or more
  heading markers, optional whitespace and the words \<open>Post-apply steps\<close>, or the words
  alone, optionally followed by whitespace and a colon; the words are compared without regard
  to case. A line starts a new heading when, after optional whitespace, it has one or more
  heading markers and then, after optional whitespace, a character that is no whitespace.
  The steps are the lines after the first heading line up to the first line that starts a new
  heading, joined by newlines and trimmed; there are none when no line is a heading line or
  when the trimmed text is empty.
\<close>

definition all_space :: "string \<Rightarrow> bool" where
  "all_space s = (\<forall>c\<in>set s. is_space c)"

definition heading_marked :: "string \<Rightarrow> bool" where
  "heading_marked line =
     (\<exists>ws1 hs ws2 t ws3. line = ws1 @ hs @ ws2 @ t @ ws3
        \<and> all_space ws1 \<and> hs \<noteq> [] \<and> set hs \<subseteq> {CHR ''#''} \<and> all_space ws2
        \<and> ci_equal t ''Post-apply steps'' \<and> all_space ws3)"

definition heading_plain :: "string \<Rightarrow> bool" where
  "heading_plain line =
     (\<exists>ws1 t ws2 colon ws3. line = ws1 @ t @ ws2 @ colon @ ws3
        \<and> all_space ws1 \<and> ci_equal t ''Post-apply steps'' \<and> all_space ws2
        \<and> (colon = [] \<or> colon = '':'') \<and> all_space ws3)"

definition is_steps_heading :: "string \<Rightarrow> bool" where
  "is_steps_heading line = (heading_marked line \<or> heading_plain line)"

definition starts_heading :: "string \<Rightarrow> bool" where
  "starts_heading line =
     (\<exists>ws1 hs ws2 t rest. line = ws1 @ hs @ ws2 @ t @ rest
        \<and> all_space ws1 \<and> hs \<noteq> [] \<and> set hs \<subseteq> {CHR ''#''} \<and> all_space ws2
        \<and> t \<noteq> [] \<and> (\<forall>c\<in>set t. \<not> is_space c))"

definition steps_after_heading :: "string \<Rightarrow> string option" where
  "steps_after_heading text =
     (let lines = splitlines text in
      if \<not> (\<exists>l\<in>set lines. is_steps_heading l) then None
      else
        (let following = tl (dropWhile (\<lambda>l. \<not> is_steps_heading l) lines);
             steps = strip (str_join [LF] (takeWhile (\<lambda>l. \<not> starts_heading l) following))
         in if steps = [] then None else Some steps))"

section \<open>The sanitizer, in the words of the specification\<close>

text \<open>
  \<open>sanitize_line\<close> is what one turn of the loop appends for a line. A line is a credential
  header when it contains the word \<open>extraheader\<close>, in any case, with no word character right
  before or right after it. The redacted form of a line is the text before its first equals
  sign followed by the mark \<open>= <redacted>\<close>, or the mark \<open><redacted>\<close> alone when the
  line has no equals sign.
\<close>

definition sanitize_line :: "string \<Rightarrow> string" where
  "sanitize_line line =
     (if rx_search EXTRAHEADER line \<noteq> None then
        (if CHR ''='' \<in> set line then fst (split_eq_1 line) @ ''= <redacted>''
         else ''<redacted>'')
      else
        (case rx_search URL_LINE line of
           Some m \<Rightarrow>
             rstrip (mgroup m 1
               @ (case rx_match HTTP_URL_WITH_USERINFO (mgroup m 2) of
                    Some url_match \<Rightarrow> mgroup url_match 1 @ mgroup url_match 3
                  | None \<Rightarrow> mgroup m 2)
               @ mgroup m 3)
         | None \<Rightarrow> rstrip line))"

definition credential_header :: "string \<Rightarrow> bool" where
  "credential_header line =
     (\<exists>pre w post. line = pre @ w @ post \<and> ci_equal w ''extraheader''
        \<and> (pre = [] \<or> \<not> is_word (last pre)) \<and> (post = [] \<or> \<not> is_word (hd post)))"

definition redacted :: "string \<Rightarrow> string" where
  "redacted line =
     (if CHR ''='' \<in> set line then takeWhile (\<lambda>c. c \<noteq> CHR ''='') line @ ''= <redacted>''
      else ''<redacted>'')"


section \<open>The archive builder, in the words of the specification\<close>

text \<open>
  The numbers that a message carries: every maximal run of decimal digits in it, read as a
  numeral, negative when a minus sign stands right before the run.
\<close>

definition is_digit :: "char \<Rightarrow> bool" where
  "is_digit c = (48 \<le> (of_char c :: nat) \<and> (of_char c :: nat) \<le> 57)"

definition dec_value :: "string \<Rightarrow> nat" where
  "dec_value ds = foldl (\<lambda>a c. 10 * a + (of_char c - 48)) 0 ds"

function numbers_in :: "string \<Rightarrow> int list" where
  "numbers_in [] = []"
| "numbers_in (c # cs) =
     (if is_digit c then
        int (dec_value (takeWhile is_digit (c # cs))) # numbers_in (dropWhile is_digit cs)
      else if c = CHR ''-'' \<and> cs \<noteq> [] \<and> is_digit (hd cs) then
        (- int (dec_value (takeWhile is_digit cs))) # numbers_in (dropWhile is_digit cs)
      else numbers_in cs)"
  by pat_completeness auto
termination
  by (relation "measure length") (auto simp: less_Suc_eq_le length_dropWhile_le)

text \<open>
  The size of the written archive: the builder has made the artifact directory, listed the
  files, and opened, filled and closed the archive without an error, and \<open>stat\<close> gives the
  size of what was written. There is no such size when one of these steps raises.
\<close>

definition measured_size :: "env \<Rightarrow> string \<Rightarrow> int option" where
  "measured_size E include_git =
     (case mkdir E of
        Some e \<Rightarrow> None
      | None \<Rightarrow>
          (case iter_repo_files_excluding_ignored E of
             Inl e \<Rightarrow> None
           | Inr files \<Rightarrow>
               (case with_zip_file E files include_git of
                  Inl e \<Rightarrow> None
                | Inr zf \<Rightarrow> (case stat_size E zf of Inl e \<Rightarrow> None | Inr n \<Rightarrow> Some n))))"

text \<open>
  An environment is quiet when it raises nothing but \<open>FileNotFoundError\<close> for a file that
  has disappeared: the directory can be made, git lists the files, the archive can be opened,
  closed and measured.
\<close>

definition benign :: "env_error + string \<Rightarrow> bool" where
  "benign r = (\<forall>e. r = Inl e \<longrightarrow> e = FileNotFoundError)"

definition quiet :: "env \<Rightarrow> bool" where
  "quiet E =
     (mkdir E = None \<and> (\<forall>args. \<exists>out. run_git E args = Inr out)
      \<and> zip_open E = None \<and> zip_close E = None
      \<and> (\<forall>p. benign (readlink (fs E p)) \<and> benign (file_bytes (fs E p))
             \<and> benign (read_text (fs E p)))
      \<and> (\<forall>zf. \<exists>n. stat_size E zf = Inr n))"

section \<open>Auxiliary facts\<close>

lemma startswith_iff_append: "startswith s p \<longleftrightarrow> (\<exists>r. s = p @ r)"
  unfolding startswith_def
  by (metis append_eq_conv_conj append_take_drop_id)

lemma is_internals_path_eq: "is_internals_path p = is_git_dir_path p"
  by (simp add: is_internals_path_def is_git_dir_path_def startswith_iff_append)

lemma startswith_Cons: "startswith s (c # p) \<Longrightarrow> \<exists>r. s = c # r"
  by (auto simp: startswith_iff_append)

lemma length_ge4: "4 \<le> length xs \<longleftrightarrow> (\<exists>a b c d r. xs = a # b # c # d # r)"
  by (cases xs; cases "tl xs"; cases "tl (tl xs)"; cases "tl (tl (tl xs))") auto

lemma length_ge2: "2 \<le> length xs \<longleftrightarrow> (\<exists>a b r. xs = a # b # r)"
  by (cases xs; cases "tl xs") auto

lemma touches_loop_Cons:
  "touches_loop (line # rest) \<longleftrightarrow> header_line_trips line \<or> file_line_trips line \<or> touches_loop rest"
proof (cases "startswith line ''diff --git ''")
  case True
  then have nf: "\<not> startswith line ''--- ''" "\<not> startswith line ''+++ ''"
    by (auto dest!: startswith_Cons)
  show ?thesis
  proof (cases "4 \<le> length (split_ws line)")
    case g: True
    then obtain a b c d r where p: "split_ws line = a # b # c # d # r"
      unfolding length_ge4 by blast
    show ?thesis using True nf p
      by (auto simp: header_line_trips_def file_line_trips_def is_internals_path_eq unprefixed_def
          Let_def numeral_2_eq_2)
  next
    case g: False
    then have "\<not> header_line_trips line"
      unfolding length_ge4 header_line_trips_def by blast
    then show ?thesis using True nf g
      by (simp add: file_line_trips_def)
  qed
next
  case False
  then have nh: "\<not> header_line_trips line" by (simp add: header_line_trips_def)
  show ?thesis
  proof (cases "startswith line ''--- '' \<or> startswith line ''+++ ''")
    case m: True
    show ?thesis
    proof (cases "2 \<le> length (split_ws line)")
      case g: True
      then obtain a b r where p: "split_ws line = a # b # r"
        unfolding length_ge2 by blast
      show ?thesis using False nh m p
        by (simp add: file_line_trips_def is_internals_path_eq Let_def)
    next
      case g: False
      then have "\<not> file_line_trips line"
        unfolding length_ge2 file_line_trips_def by blast
      then show ?thesis using False nh m g by simp
    qed
  next
    case m: False
    then have "\<not> file_line_trips line" by (simp add: file_line_trips_def)
    then show ?thesis using False nh m by simp
  qed
qed

lemma touches_loop_iff:
  "touches_loop ls \<longleftrightarrow> (\<exists>line\<in>set ls. header_line_trips line \<or> file_line_trips line)"
proof (induction ls)
  case Nil
  show ?case by simp
next
  case (Cons l ls)
  show ?case unfolding touches_loop_Cons Cons.IH by auto
qed

subsection \<open>Trying alternatives\<close>

lemma try_greedy_None_iff: "try_greedy f n = None \<longleftrightarrow> (\<forall>k\<le>n. f k = None)"
proof (induction n)
  case 0
  show ?case by simp
next
  case (Suc n)
  show ?case
    by (auto simp: Suc.IH le_Suc_eq split: option.splits)
qed

lemma try_greedy_top: "\<forall>k<n. f k = None \<Longrightarrow> try_greedy f n = f n"
  by (cases n) (auto simp: try_greedy_None_iff split: option.splits)

lemma try_greedy_SomeD:
  "try_greedy f n = Some r \<Longrightarrow> \<exists>k\<le>n. f k = Some r \<and> (\<forall>j. k < j \<and> j \<le> n \<longrightarrow> f j = None)"
proof (induction n)
  case 0
  then show ?case by simp
next
  case (Suc n)
  show ?case
  proof (cases "f (Suc n)")
    case None
    with Suc.prems have "try_greedy f n = Some r" by simp
    from Suc.IH [OF this] obtain k where
      k: "k \<le> n" "f k = Some r" "\<forall>j. k < j \<and> j \<le> n \<longrightarrow> f j = None" by blast
    have "\<forall>j. k < j \<and> j \<le> Suc n \<longrightarrow> f j = None"
      using k(3) None by (auto simp: le_Suc_eq)
    with k show ?thesis by (intro exI [of _ k]) auto
  next
    case (Some a)
    with Suc.prems have "f (Suc n) = Some r" by simp
    then show ?thesis by (intro exI [of _ "Suc n"]) auto
  qed
qed

lemma try_lazy_None_iff: "try_lazy f k d = None \<longleftrightarrow> (\<forall>j. k \<le> j \<and> j \<le> k + d \<longrightarrow> f j = None)"
proof (induction d arbitrary: k)
  case 0
  show ?case by auto
next
  case (Suc d)
  have "(\<forall>j. k \<le> j \<and> j \<le> k + Suc d \<longrightarrow> f j = None)
      \<longleftrightarrow> f k = None \<and> (\<forall>j. Suc k \<le> j \<and> j \<le> Suc k + d \<longrightarrow> f j = None)"
    (is "?L \<longleftrightarrow> ?R")
  proof
    assume l: ?L
    then have "f k = None" by simp
    moreover have "\<forall>j. Suc k \<le> j \<and> j \<le> Suc k + d \<longrightarrow> f j = None"
      using l by auto
    ultimately show ?R ..
  next
    assume r: ?R
    show ?L
    proof (intro allI impI)
      fix j assume j: "k \<le> j \<and> j \<le> k + Suc d"
      show "f j = None"
      proof (cases "j = k")
        case True
        with r show ?thesis by simp
      next
        case False
        with j have "Suc k \<le> j \<and> j \<le> Suc k + d" by arith
        with r show ?thesis by blast
      qed
    qed
  qed
  then show ?case
    by (simp add: Suc.IH split: option.splits)
qed

lemma try_lazy_first_Some:
  "\<lbrakk>f m = Some r; \<forall>j. k \<le> j \<and> j < m \<longrightarrow> f j = None; k \<le> m; m \<le> k + d\<rbrakk>
    \<Longrightarrow> try_lazy f k d = Some r"
proof (induction d arbitrary: k)
  case 0
  then have "m = k" by simp
  with 0 show ?case by simp
next
  case (Suc d)
  show ?case
  proof (cases "m = k")
    case True
    with Suc.prems show ?thesis by simp
  next
    case False
    with Suc.prems have fk: "f k = None" and km: "Suc k \<le> m" by auto
    have "try_lazy f (Suc k) d = Some r"
    proof (rule Suc.IH)
      show "f m = Some r" by (rule Suc.prems(1))
      show "\<forall>j. Suc k \<le> j \<and> j < m \<longrightarrow> f j = None" using Suc.prems(2) by auto
      show "Suc k \<le> m" by (rule km)
      show "m \<le> Suc k + d" using Suc.prems(4) by simp
    qed
    then show ?thesis using fk by simp
  qed
qed

lemma try_lazy_SomeD:
  "try_lazy f k d = Some r \<Longrightarrow> \<exists>m. k \<le> m \<and> m \<le> k + d \<and> f m = Some r"
proof (induction d arbitrary: k)
  case 0
  then show ?case by auto
next
  case (Suc d)
  show ?case
  proof (cases "f k")
    case None
    with Suc.prems have "try_lazy f (Suc k) d = Some r" by simp
    from Suc.IH [OF this] obtain m where "Suc k \<le> m" "m \<le> Suc k + d" "f m = Some r" by blast
    then show ?thesis by (intro exI [of _ m]) simp
  next
    case (Some a)
    with Suc.prems show ?thesis by auto
  qed
qed

subsection \<open>Searching\<close>

lemma search_from_None_iff:
  "search_from r b a = None \<longleftrightarrow> (\<forall>j\<le>length a. rx_run r (b @ take j a) (drop j a) [] [] = None)"
proof (induction a arbitrary: b)
  case Nil
  show ?case by simp
next
  case (Cons c cs)
  have "(\<forall>j\<le>length (c # cs). rx_run r (b @ take j (c # cs)) (drop j (c # cs)) [] [] = None)
     \<longleftrightarrow> rx_run r b (c # cs) [] [] = None
        \<and> (\<forall>j\<le>length cs. rx_run r ((b @ [c]) @ take j cs) (drop j cs) [] [] = None)"
    (is "?L \<longleftrightarrow> ?A \<and> ?B")
  proof
    assume l: ?L
    have ?A using l [rule_format, of 0] by simp
    moreover have ?B
    proof (intro allI impI)
      fix j assume "j \<le> length cs"
      then show "rx_run r ((b @ [c]) @ take j cs) (drop j cs) [] [] = None"
        using l [rule_format, of "Suc j"] by simp
    qed
    ultimately show "?A \<and> ?B" ..
  next
    assume ab: "?A \<and> ?B"
    show ?L
    proof (intro allI impI)
      fix j assume "j \<le> length (c # cs)"
      then show "rx_run r (b @ take j (c # cs)) (drop j (c # cs)) [] [] = None"
        using ab by (cases j) auto
    qed
  qed
  then show ?case
    by (simp add: Cons.IH split: option.splits)
qed

lemma search_from_skip:
  "\<lbrakk>\<forall>j<k. rx_run r (b @ take j a) (drop j a) [] [] = None; k \<le> length a\<rbrakk>
    \<Longrightarrow> search_from r b a = search_from r (b @ take k a) (drop k a)"
proof (induction k arbitrary: a b)
  case 0
  show ?case by simp
next
  case (Suc k)
  then obtain c cs where a: "a = c # cs" by (cases a) auto
  have h0: "rx_run r b (c # cs) [] [] = None"
    using Suc.prems(1) [rule_format, of 0] a by simp
  have "\<forall>j<k. rx_run r ((b @ [c]) @ take j cs) (drop j cs) [] [] = None"
  proof (intro allI impI)
    fix j assume "j < k"
    then show "rx_run r ((b @ [c]) @ take j cs) (drop j cs) [] [] = None"
      using Suc.prems(1) [rule_format, of "Suc j"] a by simp
  qed
  moreover have "k \<le> length cs" using Suc.prems(2) a by simp
  ultimately have "search_from r (b @ [c]) cs = search_from r ((b @ [c]) @ take k cs) (drop k cs)"
    by (rule Suc.IH)
  then show ?case using h0 a by simp
qed

lemma search_from_hit:
  "rx_run r b a [] [] = Some m \<Longrightarrow> search_from r b a = Some m"
  by (cases a) auto

lemma search_from_SomeD:
  "search_from r b a = Some m \<Longrightarrow> \<exists>j\<le>length a. rx_run r (b @ take j a) (drop j a) [] [] = Some m"
proof (induction a arbitrary: b)
  case Nil
  then show ?case by simp
next
  case (Cons c cs)
  show ?case
  proof (cases "rx_run r b (c # cs) [] []")
    case None
    with Cons.prems have "search_from r (b @ [c]) cs = Some m" by simp
    from Cons.IH [OF this] obtain j where
      "j \<le> length cs" "rx_run r ((b @ [c]) @ take j cs) (drop j cs) [] [] = Some m" by blast
    then show ?thesis by (intro exI [of _ "Suc j"]) simp
  next
    case (Some a)
    with Cons.prems show ?thesis by (intro exI [of _ 0]) simp
  qed
qed

subsection \<open>The matcher reads the text from left to right\<close>

lemma rx_run_consumes:
  "rx_run r b a ms gs = Some (b', a', gs') \<Longrightarrow> \<exists>x. b' = b @ x \<and> a = x @ a'"
proof (induction r b a ms gs rule: rx_run.induct)
  case (1 b a ms gs)
  then show ?case by simp
next
  case (2 p r b a ms gs)
  then show ?case
    by (auto simp: startswith_def split: if_splits) (metis append_take_drop_id)
next
  case (3 p r b a ms gs)
  then show ?case
    by (auto split: if_splits) (metis append_take_drop_id)
next
  case (4 p r b a ms gs)
  then show ?case
    by (auto simp: startswith_def split: if_splits option.splits) (metis append_take_drop_id)+
next
  case (5 cs r b a ms gs)
  from 5(2) obtain k where "rx_run r (b @ take k a) (drop k a) ms gs = Some (b', a', gs')"
    by (auto dest!: try_greedy_SomeD)
  from 5(1) [OF this] show ?case by (auto) (metis append_take_drop_id)
next
  case (6 cs r b a ms gs)
  from 6(2) obtain k where "rx_run r (b @ take (Suc k) a) (drop (Suc k) a) ms gs = Some (b', a', gs')"
    by (auto dest!: try_greedy_SomeD split: if_splits)
  from 6(1) [OF _ this] 6(2) show ?case by (auto split: if_splits) (metis append_take_drop_id)
next
  case (7 cs r b a ms gs)
  from 7(2) obtain k where "rx_run r (b @ take k a) (drop k a) ms gs = Some (b', a', gs')"
    by (auto dest!: try_lazy_SomeD)
  from 7(1) [OF this] show ?case by (auto) (metis append_take_drop_id)
next
  case (8 r b a ms gs)
  then show ?case by (auto split: if_splits)
next
  case (9 r b a ms gs)
  then show ?case by (auto split: if_splits)
next
  case (10 r b a ms gs)
  then show ?case by (auto split: if_splits)
next
  case (11 n r b a ms gs)
  then show ?case by auto
next
  case (12 n r b a ms gs)
  then show ?case by (auto split: option.splits)
qed

subsection \<open>Occurrences of a text\<close>

lemma startswith_Nil [simp]: "startswith [] p \<longleftrightarrow> p = []"
  by (auto simp: startswith_def)

lemma startswith_nonempty: "startswith (drop k a) (c # p) \<Longrightarrow> k < length a"
  by (cases "k < length a") (auto simp: startswith_def)

lemma find_from_neg:
  "find_from p s i = - 1 \<longleftrightarrow> (\<forall>k\<le>length s. \<not> startswith (drop k s) p)"
proof (induction s arbitrary: i)
  case Nil
  show ?case by auto
next
  case (Cons c cs)
  have "(\<forall>k\<le>length (c # cs). \<not> startswith (drop k (c # cs)) p)
      \<longleftrightarrow> \<not> startswith (c # cs) p \<and> (\<forall>k\<le>length cs. \<not> startswith (drop k cs) p)"
    (is "?L \<longleftrightarrow> ?R")
  proof
    assume l: ?L
    have "\<not> startswith (c # cs) p" using l [rule_format, of 0] by simp
    moreover have "\<forall>k\<le>length cs. \<not> startswith (drop k cs) p"
    proof (intro allI impI)
      fix k assume "k \<le> length cs"
      then show "\<not> startswith (drop k cs) p" using l [rule_format, of "Suc k"] by simp
    qed
    ultimately show ?R ..
  next
    assume r: ?R
    show ?L
    proof (intro allI impI)
      fix k assume "k \<le> length (c # cs)"
      then show "\<not> startswith (drop k (c # cs)) p" using r by (cases k) auto
    qed
  qed
  then show ?case by (simp add: Cons.IH)
qed

lemma find_from_found:
  "find_from p s i \<noteq> - 1 \<Longrightarrow> \<exists>k. find_from p s i = int (i + k) \<and> first_occurrence p s k"
proof (induction s arbitrary: i)
  case Nil
  then show ?case by (auto simp: first_occurrence_def split: if_splits)
next
  case (Cons c cs)
  show ?case
  proof (cases "startswith (c # cs) p")
    case True
    then show ?thesis by (intro exI [of _ 0]) (simp add: first_occurrence_def)
  next
    case False
    with Cons.prems have "find_from p cs (Suc i) \<noteq> - 1" by simp
    from Cons.IH [OF this] obtain k where
      k: "find_from p cs (Suc i) = int (Suc i + k)" "first_occurrence p cs k" by blast
    have "first_occurrence p (c # cs) (Suc k)"
      unfolding first_occurrence_def
    proof (intro conjI allI impI)
      show "Suc k \<le> length (c # cs)" using k(2) by (simp add: first_occurrence_def)
      show "startswith (drop (Suc k) (c # cs)) p" using k(2) by (simp add: first_occurrence_def)
      fix j assume "j < Suc k"
      then show "\<not> startswith (drop j (c # cs)) p"
        using False k(2) by (cases j) (auto simp: first_occurrence_def)
    qed
    then show ?thesis using False k(1) by (intro exI [of _ "Suc k"]) simp
  qed
qed

lemma first_index_None_iff:
  "first_index s p = None \<longleftrightarrow> (\<forall>k\<le>length s. \<not> startswith (drop k s) p)"
  by (simp add: first_index_def str_find_def find_from_neg)

lemma first_index_SomeD: "first_index s p = Some k \<Longrightarrow> first_occurrence p s k"
proof -
  assume h: "first_index s p = Some k"
  then have ne: "find_from p s 0 \<noteq> - 1" and k: "k = nat (find_from p s 0)"
    by (auto simp: first_index_def str_find_def split: if_splits)
  from find_from_found [OF ne] obtain k' where
    "find_from p s 0 = int (0 + k')" "first_occurrence p s k'" by blast
  then show ?thesis using k by simp
qed

lemma first_occurrence_unique:
  "first_occurrence p s k \<Longrightarrow> first_occurrence p s k' \<Longrightarrow> k = k'"
  unfolding first_occurrence_def by (metis linorder_neqE_nat)

lemma first_index_Some_iff: "first_index s p = Some k \<longleftrightarrow> first_occurrence p s k"
proof
  assume "first_index s p = Some k"
  then show "first_occurrence p s k" by (rule first_index_SomeD)
next
  assume f: "first_occurrence p s k"
  then have "first_index s p \<noteq> None"
    unfolding first_index_None_iff first_occurrence_def by blast
  then obtain k' where k': "first_index s p = Some k'" by blast
  from first_index_SomeD [OF this] f have "k' = k" by (rule first_occurrence_unique)
  with k' show "first_index s p = Some k" by simp
qed

subsection \<open>Whitespace runs\<close>

lemma cset_mem_WS [simp]: "cset_mem WS = is_space"
  by (rule ext) simp

lemma cset_mem_Dot [simp]: "cset_mem Dot = (\<lambda>c. True)"
  by (rule ext) simp

lemma run_len_Dot [simp]: "run_len Dot a = length a"
proof -
  have "length (takeWhile (\<lambda>c. True) a) = length a" by (induction a) auto
  then show ?thesis by (simp add: run_len_def)
qed

lemma run_len_le: "run_len cs a \<le> length a"
  by (simp add: run_len_def length_takeWhile_le)

lemma take_run_len: "take (run_len cs a) a = takeWhile (cset_mem cs) a"
  by (simp add: run_len_def takeWhile_eq_take [symmetric])

lemma drop_run_len: "drop (run_len cs a) a = dropWhile (cset_mem cs) a"
  by (simp add: run_len_def dropWhile_eq_drop [symmetric])

lemma below_run_len: "k < run_len cs a \<Longrightarrow> k < length a \<and> cset_mem cs (a ! k)"
  unfolding run_len_def
  by (metis length_takeWhile_le less_le_trans nth_mem set_takeWhileD takeWhile_nth)

lemma run_len_le_index: "j < length a \<Longrightarrow> \<not> cset_mem cs (a ! j) \<Longrightarrow> run_len cs a \<le> j"
  using below_run_len [of j cs a] by (cases "j < run_len cs a") auto

lemma hd_drop_nth: "k < length a \<Longrightarrow> drop k a = a ! k # drop (Suc k) a"
  by (simp add: Cons_nth_drop_Suc)

lemma startswith_hd: "startswith s (c # p) \<Longrightarrow> s \<noteq> [] \<and> hd s = c"
  by (auto simp: startswith_iff_append)

lemma not_space_backtick [simp]: "\<not> is_space (CHR 0x60)"
  by (simp add: is_space_def)

text \<open>Optional whitespace and then a literal that starts with a character that is no
  whitespace: only the whole run of whitespace can be skipped.\<close>

lemma run_ws_lit:
  assumes c: "\<not> is_space c"
  shows "rx_run [Star WS, Lit (c # p)] b x ms gs =
     (if startswith (dropWhile is_space x) (c # p)
      then Some (b @ takeWhile is_space x @ (c # p),
                 drop (length (c # p)) (dropWhile is_space x), gs)
      else None)"
proof -
  let ?f = "\<lambda>k. rx_run [Lit (c # p)] (b @ take k x) (drop k x) ms gs"
  have below: "\<forall>k<run_len WS x. ?f k = None"
  proof (intro allI impI)
    fix k assume k: "k < run_len WS x"
    then have kl: "k < length x" and sp: "is_space (x ! k)"
      using below_run_len [OF k] by auto
    have "\<not> startswith (drop k x) (c # p)"
    proof
      assume "startswith (drop k x) (c # p)"
      then have "hd (drop k x) = c" by (auto dest: startswith_hd)
      then have "x ! k = c" using kl by (simp add: hd_drop_conv_nth)
      with sp c show False by simp
    qed
    then show "?f k = None" by simp
  qed
  have "rx_run [Star WS, Lit (c # p)] b x ms gs = try_greedy ?f (run_len WS x)"
    by simp
  also have "\<dots> = ?f (run_len WS x)"
    by (rule try_greedy_top [OF below])
  also have "\<dots> = (if startswith (dropWhile is_space x) (c # p)
      then Some (b @ takeWhile is_space x @ (c # p),
                 drop (length (c # p)) (dropWhile is_space x), gs)
      else None)"
    using take_run_len [of WS x] drop_run_len [of WS x] by simp
  finally show ?thesis .
qed

lemma try_greedy_hit: "f n = Some r \<Longrightarrow> try_greedy f n = Some r"
  by (cases n) auto

lemma rx_run_Lit_SomeD:
  "rx_run (Lit p # r) b a ms gs = Some m
    \<Longrightarrow> startswith a p \<and> rx_run r (b @ p) (drop (length p) a) ms gs = Some m"
  by (simp split: if_splits)

lemma rx_run_Star_SomeD:
  "rx_run (Star cs # r) b a ms gs = Some m
    \<Longrightarrow> \<exists>k\<le>run_len cs a. rx_run r (b @ take k a) (drop k a) ms gs = Some m"
  using try_greedy_SomeD [of "\<lambda>k. rx_run r (b @ take k a) (drop k a) ms gs" "run_len cs a" m]
  by auto

lemma rx_run_StarLazy_SomeD:
  "rx_run (StarLazy cs # r) b a ms gs = Some m
    \<Longrightarrow> \<exists>k\<le>run_len cs a. rx_run r (b @ take k a) (drop k a) ms gs = Some m"
  using try_lazy_SomeD [of "\<lambda>k. rx_run r (b @ take k a) (drop k a) ms gs" 0 "run_len cs a" m]
  by auto

lemma rx_run_GClose_hit:
  "rx_run (GClose n # r) b a ((n, i) # ms) gs = rx_run r b a ((n, i) # ms) ((n, drop i b) # gs)"
  by simp

lemmas rx_run_GOpen = rx_run.simps(11)

subsection \<open>Trimming\<close>

lemma rstrip_decomp: "\<exists>w. s = rstrip s @ w \<and> (\<forall>c\<in>set w. is_space c)"
proof -
  have "rev s = takeWhile is_space (rev s) @ dropWhile is_space (rev s)" by simp
  then have "s = rev (dropWhile is_space (rev s)) @ rev (takeWhile is_space (rev s))"
    by (metis rev_append rev_rev_ident)
  moreover have "\<forall>c\<in>set (rev (takeWhile is_space (rev s))). is_space c"
    by (auto dest: set_takeWhileD)
  ultimately show ?thesis unfolding rstrip_def by blast
qed

lemma rstrip_last: "rstrip s \<noteq> [] \<Longrightarrow> \<not> is_space (last (rstrip s))"
  unfolding rstrip_def by (simp add: last_rev hd_dropWhile)

lemma rstrip_append_ws:
  assumes "\<forall>c\<in>set w. is_space c"
  shows "rstrip (s @ w) = rstrip s"
proof -
  have "dropWhile is_space (rev w @ rev s) = dropWhile is_space (rev s)"
    by (rule dropWhile_append2) (use assms in auto)
  then show ?thesis by (simp add: rstrip_def)
qed

lemma lstrip_Nil [simp]: "lstrip [] = []"
  by (simp add: lstrip_def)

lemma rstrip_Nil [simp]: "rstrip [] = []"
  by (simp add: rstrip_def)

lemma rstrip_id: "s = [] \<or> \<not> is_space (last s) \<Longrightarrow> rstrip s = s"
proof (cases "s = []")
  case True
  then show ?thesis by (simp add: rstrip_def)
next
  case False
  assume "s = [] \<or> \<not> is_space (last s)"
  with False have "\<not> is_space (hd (rev s))" by (simp add: hd_rev)
  moreover have "rev s \<noteq> []" using False by simp
  ultimately have "dropWhile is_space (rev s) = rev s" by (cases "rev s") auto
  then show ?thesis by (simp add: rstrip_def)
qed

lemma rstrip_idem [simp]: "rstrip (rstrip s) = rstrip s"
  by (rule rstrip_id) (metis rstrip_last)

lemma lstrip_idem [simp]: "lstrip (lstrip s) = lstrip s"
  unfolding lstrip_def by (metis dropWhile_eq_Nil_conv dropWhile_idem)

lemma dropWhile_keeps: "s = [] \<or> \<not> P (hd s) \<Longrightarrow> dropWhile P s = s"
  by (cases s) auto

lemma lstrip_rstrip: "lstrip (rstrip s) = rstrip (lstrip s)"
proof (cases "\<forall>c\<in>set s. is_space c")
  case True
  then have "lstrip s = []" by (simp add: lstrip_def)
  moreover have "rstrip s = []" using True by (simp add: rstrip_def)
  ultimately show ?thesis by simp
next
  case False
  obtain w where w: "s = rstrip s @ w" "\<forall>c\<in>set w. is_space c"
    using rstrip_decomp by blast
  have ex: "\<exists>c\<in>set (rstrip s). \<not> is_space c"
    using False w by (metis Un_iff set_append)
  have "lstrip s = lstrip (rstrip s) @ w"
    using w(1) ex unfolding lstrip_def by (metis dropWhile_append1)
  then have "rstrip (lstrip s) = rstrip (lstrip (rstrip s))"
    using w(2) by (simp add: rstrip_append_ws)
  also have "\<dots> = lstrip (rstrip s)"
  proof (rule rstrip_id)
    have ne: "lstrip (rstrip s) \<noteq> []" using ex by (simp add: lstrip_def)
    obtain u where u: "rstrip s = u @ lstrip (rstrip s)"
      unfolding lstrip_def by (metis takeWhile_dropWhile_id)
    then have "last (lstrip (rstrip s)) = last (rstrip s)" using ne by (metis last_appendR)
    moreover have "rstrip s \<noteq> []" using ex by auto
    ultimately show "lstrip (rstrip s) = [] \<or> \<not> is_space (last (lstrip (rstrip s)))"
      using rstrip_last [of s] by simp
  qed
  finally show ?thesis by simp
qed

lemma strip_idem [simp]: "strip (strip s) = strip s"
  unfolding strip_def by (simp add: lstrip_rstrip [symmetric])

subsection \<open>The closing fence\<close>

lemma fence_tail_sound:
  assumes h: "rx_run [Star WS, GOpen 1, StarLazy Dot, GClose 1, Star WS, Lit ''```''] b a [] []
      = Some m"
  shows "\<exists>k\<le>length a. startswith (drop k a) ''```''"
proof -
  from rx_run_Star_SomeD [OF h] obtain k1 where
    k1: "rx_run [GOpen 1, StarLazy Dot, GClose 1, Star WS, Lit ''```'']
           (b @ take k1 a) (drop k1 a) [] [] = Some m" by blast
  from k1 have "rx_run [StarLazy Dot, GClose 1, Star WS, Lit ''```'']
           (b @ take k1 a) (drop k1 a) [(1, length (b @ take k1 a))] [] = Some m"
    by (simp only: rx_run_GOpen)
  from rx_run_StarLazy_SomeD [OF this] obtain k2 where
    k2: "rx_run [GClose 1, Star WS, Lit ''```'']
           ((b @ take k1 a) @ take k2 (drop k1 a)) (drop k2 (drop k1 a))
           [(1, length (b @ take k1 a))] [] = Some m" by blast
  from k2 obtain gs where "rx_run [Star WS, Lit ''```'']
           ((b @ take k1 a) @ take k2 (drop k1 a)) (drop k2 (drop k1 a))
           [(1, length (b @ take k1 a))] gs = Some m"
    by (simp only: rx_run_GClose_hit)
  from rx_run_Star_SomeD [OF this] obtain k3 where
    "rx_run [Lit ''```''] (((b @ take k1 a) @ take k2 (drop k1 a))
           @ take k3 (drop k2 (drop k1 a))) (drop k3 (drop k2 (drop k1 a)))
           [(1, length (b @ take k1 a))] gs = Some m" by blast
  from rx_run_Lit_SomeD [OF this] have "startswith (drop k3 (drop k2 (drop k1 a))) ''```''"
    by blast
  then have s: "startswith (drop (k3 + (k2 + k1)) a) ''```''" by simp
  then have "k3 + (k2 + k1) < length a" by (rule startswith_nonempty)
  with s show ?thesis by (intro exI [of _ "k3 + (k2 + k1)"]) simp
qed

lemma fence_tail_complete:
  assumes fo: "first_occurrence ''```'' a j"
  shows "\<exists>b' a'. rx_run [Star WS, GOpen 1, StarLazy Dot, GClose 1, Star WS, Lit ''```''] b a [] []
      = Some (b', a', [(1, strip (take j a))])"
proof -
  define n1 where "n1 = run_len WS a"
  define a2 where "a2 = drop n1 a"
  have a2_dw: "a2 = dropWhile is_space a"
    unfolding a2_def n1_def using drop_run_len [of WS a] by simp
  have tk_n1: "take n1 a = takeWhile is_space a"
    unfolding n1_def using take_run_len [of WS a] by simp
  have n1_le: "n1 \<le> length a" unfolding n1_def by (rule run_len_le)
  from fo have sj: "startswith (drop j a) ''```''"
    and nf: "\<forall>i<j. \<not> startswith (drop i a) ''```''"
    by (auto simp: first_occurrence_def)
  from sj have jl: "j < length a" by (rule startswith_nonempty)
  from sj have "hd (drop j a) = CHR 0x60" by (auto dest: startswith_hd)
  then have aj: "a ! j = CHR 0x60" using jl by (simp add: hd_drop_conv_nth)
  have n1j: "n1 \<le> j"
    unfolding n1_def using jl aj by (intro run_len_le_index) auto
  define j2 where "j2 = j - n1"
  have j_eq: "j = n1 + j2" using n1j by (simp add: j2_def)
  have j2l: "j2 < length a2" using jl n1j by (simp add: a2_def j2_def)
  have drop_j: "drop j2 a2 = drop j a" by (simp add: a2_def j_eq add.commute)
  have take_j: "take j a = take n1 a @ take j2 a2"
    unfolding j_eq a2_def by (rule take_add)
  have a2_hd: "a2 = [] \<or> \<not> is_space (hd a2)"
    unfolding a2_dw by (metis hd_dropWhile)
  have "take j2 a2 = [] \<or> \<not> is_space (hd (take j2 a2))"
    using a2_hd by (cases j2; cases a2) auto
  then have "dropWhile is_space (take j2 a2) = take j2 a2" by (rule dropWhile_keeps)
  moreover have "\<forall>c\<in>set (take n1 a). is_space c"
    unfolding tk_n1 by (auto dest: set_takeWhileD)
  ultimately have ls: "lstrip (take j a) = take j2 a2"
    unfolding lstrip_def take_j by (simp add: dropWhile_append2)
  define core where "core = strip (take j a)"
  have core_r: "core = rstrip (take j2 a2)" by (simp add: core_def strip_def ls)
  obtain w2 where w2: "take j2 a2 = core @ w2" "\<forall>c\<in>set w2. is_space c"
    unfolding core_r using rstrip_decomp by blast
  define m0 where "m0 = length core"
  have m0j: "m0 \<le> j2"
  proof -
    have "length (take j2 a2) = m0 + length w2" unfolding m0_def using w2(1) by (metis length_append)
    then show ?thesis using j2l by simp
  qed
  have core_take: "core = take m0 a2"
  proof -
    have "take m0 (take j2 a2) = core" unfolding w2(1) m0_def by simp
    then show ?thesis using m0j by (simp add: min_def)
  qed
  have core_last: "core \<noteq> [] \<Longrightarrow> \<not> is_space (last core)"
    unfolding core_r by (rule rstrip_last)
  have drop_m0: "drop m0 a2 = w2 @ drop j a"
  proof -
    have "a2 = (core @ w2) @ drop j2 a2" using w2(1) by (metis append_take_drop_id)
    then have "drop m0 a2 = drop m0 (core @ (w2 @ drop j2 a2))" by simp
    also have "\<dots> = w2 @ drop j2 a2" unfolding m0_def by simp
    finally show ?thesis by (simp add: drop_j)
  qed
  let ?ms = "[(1::nat, length (b @ take n1 a))]"
  let ?g = "\<lambda>m. rx_run [GClose 1, Star WS, Lit ''```'']
      ((b @ take n1 a) @ take m a2) (drop m a2) ?ms []"
  have g_eq: "?g m = (if startswith (dropWhile is_space (drop m a2)) ''```''
      then Some (((b @ take n1 a) @ take m a2) @ takeWhile is_space (drop m a2) @ ''```'',
                 drop (length ''```'') (dropWhile is_space (drop m a2)), [(1, take m a2)])
      else None)" for m
  proof -
    have "?g m = rx_run [Star WS, Lit ''```''] ((b @ take n1 a) @ take m a2) (drop m a2) ?ms
        [(1, drop (length (b @ take n1 a)) ((b @ take n1 a) @ take m a2))]"
      by (simp only: rx_run_GClose_hit)
    also have "\<dots> = rx_run [Star WS, Lit ''```''] ((b @ take n1 a) @ take m a2) (drop m a2) ?ms
        [(1, take m a2)]" by simp
    also have "\<dots> = (if startswith (dropWhile is_space (drop m a2)) ''```''
      then Some (((b @ take n1 a) @ take m a2) @ takeWhile is_space (drop m a2) @ ''```'',
                 drop (length ''```'') (dropWhile is_space (drop m a2)), [(1, take m a2)])
      else None)"
      by (rule run_ws_lit) simp
    finally show ?thesis .
  qed
  have g_hit: "\<exists>b' a'. ?g m0 = Some (b', a', [(1, core)])"
  proof -
    have "drop j a = [] \<or> \<not> is_space (hd (drop j a))"
      using jl aj by (simp add: hd_drop_conv_nth)
    then have "dropWhile is_space (drop j a) = drop j a" by (rule dropWhile_keeps)
    then have "dropWhile is_space (drop m0 a2) = drop j a"
      unfolding drop_m0 using w2(2) by (simp add: dropWhile_append2)
    then show ?thesis unfolding g_eq using sj core_take by simp
  qed
  have g_miss: "\<forall>m. 0 \<le> m \<and> m < m0 \<longrightarrow> ?g m = None"
  proof (intro allI impI)
    fix m assume "0 \<le> m \<and> m < m0"
    then have m: "m < m0" by simp
    then have cne: "core \<noteq> []" by (auto simp: m0_def)
    have m0l: "m0 \<le> length a2" using m0j j2l by simp
    define t where "t = length (takeWhile is_space (drop m a2))"
    have dw: "dropWhile is_space (drop m a2) = drop (t + m + n1) a"
    proof -
      have "dropWhile is_space (drop m a2) = drop t (drop m a2)"
        unfolding t_def by (rule dropWhile_eq_drop)
      then show ?thesis by (simp add: a2_def add.assoc)
    qed
    have "a2 ! (m0 - 1) = core ! (m0 - 1)" using cne unfolding core_take by (simp add: m0_def)
    also have "\<dots> = last core" using cne by (simp add: last_conv_nth m0_def)
    finally have ns: "\<not> is_space (a2 ! (m0 - 1))" using core_last [OF cne] by simp
    have "run_len WS (drop m a2) \<le> m0 - 1 - m"
    proof (rule run_len_le_index)
      show "m0 - 1 - m < length (drop m a2)" using m m0l by simp
      have "drop m a2 ! (m0 - 1 - m) = a2 ! (m0 - 1)" using m m0l by simp
      then show "\<not> cset_mem WS (drop m a2 ! (m0 - 1 - m))" using ns by simp
    qed
    then have "t \<le> m0 - 1 - m" by (simp add: run_len_def t_def)
    then have "t + m + n1 < j" using m m0j j_eq by simp
    then have "\<not> startswith (drop (t + m + n1) a) ''```''" using nf by blast
    then show "?g m = None" unfolding g_eq dw by simp
  qed
  from g_hit obtain b' a' where hit: "?g m0 = Some (b', a', [(1, core)])" by blast
  have lazy: "try_lazy ?g 0 (length a2) = Some (b', a', [(1, core)])"
  proof (rule try_lazy_first_Some [OF hit g_miss])
    show "0 \<le> m0" by simp
    show "m0 \<le> 0 + length a2" using m0j j2l by simp
  qed
  let ?f = "\<lambda>k. rx_run [GOpen 1, StarLazy Dot, GClose 1, Star WS, Lit ''```'']
      (b @ take k a) (drop k a) [] []"
  have "?f n1 = rx_run [StarLazy Dot, GClose 1, Star WS, Lit ''```''] (b @ take n1 a) a2 ?ms []"
    unfolding a2_def by (simp only: rx_run_GOpen)
  also have "\<dots> = try_lazy ?g 0 (run_len Dot a2)"
    by (simp only: rx_run.simps(7))
  also have "\<dots> = Some (b', a', [(1, core)])" using lazy by simp
  finally have "try_greedy ?f n1 = Some (b', a', [(1, core)])" by (rule try_greedy_hit)
  then have "rx_run [Star WS, GOpen 1, StarLazy Dot, GClose 1, Star WS, Lit ''```''] b a [] []
      = Some (b', a', [(1, core)])"
    unfolding n1_def by (simp only: rx_run.simps(5))
  then show ?thesis unfolding core_def by blast
qed

subsection \<open>The pattern of the fenced diff block\<close>

lemma diff_fence_at:
  "rx_run DIFF_FENCE b a [] [] =
     (if startswith a ''```diff''
      then rx_run [Star WS, GOpen 1, StarLazy Dot, GClose 1, Star WS, Lit ''```'']
             (b @ ''```diff'') (drop 7 a) [] []
      else None)"
proof -
  have l: "length ''```diff'' = 7" by simp
  show ?thesis unfolding DIFF_FENCE_def by (simp only: rx_run.simps(2) l)
qed

lemma diff_fence_search_None:
  assumes none: "fenced_diff_block text = None"
  shows "rx_search DIFF_FENCE text = None"
  unfolding rx_search_def search_from_None_iff
proof (intro allI impI)
  fix j assume jl: "j \<le> length text"
  show "rx_run DIFF_FENCE ([] @ take j text) (drop j text) [] [] = None"
  proof (rule ccontr)
    assume "rx_run DIFF_FENCE ([] @ take j text) (drop j text) [] [] \<noteq> None"
    then obtain m where m: "rx_run DIFF_FENCE ([] @ take j text) (drop j text) [] [] = Some m"
      by blast
    then have sf: "startswith (drop j text) ''```diff''"
      and tl: "rx_run [Star WS, GOpen 1, StarLazy Dot, GClose 1, Star WS, Lit ''```'']
             (([] @ take j text) @ ''```diff'') (drop 7 (drop j text)) [] [] = Some m"
      unfolding diff_fence_at by (auto split: if_splits)
    from fence_tail_sound [OF tl] obtain k where
      k: "startswith (drop k (drop 7 (drop j text))) ''```''" by blast
    then have k': "startswith (drop (k + 7 + j) text) ''```''" by (simp add: add.assoc)
    then have kl: "k + 7 + j < length text" by (rule startswith_nonempty)
    from sf jl have "first_index text ''```diff'' \<noteq> None"
      unfolding first_index_None_iff by blast
    then obtain i where i: "first_index text ''```diff'' = Some i" by blast
    then have "first_occurrence ''```diff'' text i" by (rule first_index_SomeD)
    then have ij: "i \<le> j" using sf unfolding first_occurrence_def by (meson not_le)
    from none i have "first_index (drop (i + 7) text) ''```'' = None"
      by (simp add: fenced_diff_block_def split: option.splits)
    then have no: "\<forall>k\<le>length (drop (i + 7) text). \<not> startswith (drop k (drop (i + 7) text)) ''```''"
      unfolding first_index_None_iff .
    have "k + j - i \<le> length (drop (i + 7) text)" using kl ij by simp
    moreover have "drop (k + j - i) (drop (i + 7) text) = drop (k + 7 + j) text"
    proof -
      have e: "k + j - i + (i + 7) = k + 7 + j" using ij by simp
      show ?thesis by (simp only: drop_drop e)
    qed
    ultimately show False using no k' by auto
  qed
qed

lemma diff_fence_search_Some:
  assumes some: "fenced_diff_block text = Some interior"
  shows "\<exists>m. rx_search DIFF_FENCE text = Some m \<and> mgroup m 1 = strip interior"
proof -
  from some obtain i j where
    i: "first_index text ''```diff'' = Some i" and
    j: "first_index (drop (i + 7) text) ''```'' = Some j" and
    int: "interior = take j (drop (i + 7) text)"
    by (auto simp: fenced_diff_block_def split: option.splits)
  from i have fi: "first_occurrence ''```diff'' text i" by (rule first_index_SomeD)
  from j have fj: "first_occurrence ''```'' (drop (i + 7) text) j" by (rule first_index_SomeD)
  have il: "i \<le> length text" and si: "startswith (drop i text) ''```diff''"
    using fi by (auto simp: first_occurrence_def)
  have before: "\<forall>k<i. rx_run DIFF_FENCE ([] @ take k text) (drop k text) [] [] = None"
    using fi unfolding diff_fence_at first_occurrence_def by auto
  have skip: "search_from DIFF_FENCE [] text = search_from DIFF_FENCE ([] @ take i text) (drop i text)"
    by (rule search_from_skip [OF before il])
  from fence_tail_complete [OF fj, of "([] @ take i text) @ ''```diff''"] obtain b' a' where
    run: "rx_run [Star WS, GOpen 1, StarLazy Dot, GClose 1, Star WS, Lit ''```'']
       (([] @ take i text) @ ''```diff'') (drop (i + 7) text) [] []
       = Some (b', a', [(1, strip interior)])"
    unfolding int by blast
  have "drop 7 (drop i text) = drop (i + 7) text" by (simp add: add.commute)
  then have "rx_run DIFF_FENCE ([] @ take i text) (drop i text) [] []
      = Some (b', a', [(1, strip interior)])"
    unfolding diff_fence_at using si run by simp
  then have "search_from DIFF_FENCE ([] @ take i text) (drop i text)
      = Some (b', a', [(1, strip interior)])"
    by (rule search_from_hit)
  then have "rx_search DIFF_FENCE text = Some (b', a', [(1, strip interior)])"
    unfolding rx_search_def skip .
  then show ?thesis by (simp add: mgroup_def)
qed

lemma extract_patch_nonempty: "extract_patch text = Some p \<Longrightarrow> p \<noteq> []"
  by (auto simp: extract_patch_def Let_def split: option.splits if_splits)

lemma rstrip_strip [simp]: "rstrip (strip s) = strip s"
  by (simp add: strip_def)

subsection \<open>What a pattern matches\<close>

lemma ci_equal_length: "ci_equal w p \<Longrightarrow> length w = length p"
  unfolding ci_equal_def by (metis length_map)

lemma take_within_run: "k \<le> run_len cs a \<Longrightarrow> \<forall>c\<in>set (take k a). cset_mem cs c"
proof -
  assume k: "k \<le> run_len cs a"
  have "take k a = take k (takeWhile (cset_mem cs) a)"
    using k take_run_len [of cs a] by (metis min.absorb1 take_take)
  then have "set (take k a) \<subseteq> set (takeWhile (cset_mem cs) a)"
    by (metis set_take_subset)
  then show ?thesis by (auto dest: set_takeWhileD)
qed

lemma run_len_prefix: "\<forall>c\<in>set x. cset_mem cs c \<Longrightarrow> length x \<le> run_len cs (x @ y)"
  by (simp add: run_len_def takeWhile_append2)

lemma split_by_run:
  "(\<exists>k\<le>run_len cs a. P (take k a) (drop k a))
     \<longleftrightarrow> (\<exists>x y. a = x @ y \<and> (\<forall>c\<in>set x. cset_mem cs c) \<and> P x y)"
proof
  assume "\<exists>k\<le>run_len cs a. P (take k a) (drop k a)"
  then obtain k where k: "k \<le> run_len cs a" "P (take k a) (drop k a)" by blast
  have "a = take k a @ drop k a" by simp
  with k take_within_run [OF k(1)] show "\<exists>x y. a = x @ y \<and> (\<forall>c\<in>set x. cset_mem cs c) \<and> P x y"
    by blast
next
  assume "\<exists>x y. a = x @ y \<and> (\<forall>c\<in>set x. cset_mem cs c) \<and> P x y"
  then obtain x y where xy: "a = x @ y" "\<forall>c\<in>set x. cset_mem cs c" "P x y" by blast
  have "length x \<le> run_len cs a" unfolding xy(1) by (rule run_len_prefix [OF xy(2)])
  moreover have "P (take (length x) a) (drop (length x) a)" using xy by simp
  ultimately show "\<exists>k\<le>run_len cs a. P (take k a) (drop k a)" by blast
qed

lemma matches_at_Nil [simp]: "matches_at [] b a ms gs"
  by (simp add: matches_at_def)

lemma matches_at_Lit [simp]:
  "matches_at (Lit p # r) b a ms gs \<longleftrightarrow> (\<exists>y. a = p @ y \<and> matches_at r (b @ p) y ms gs)"
  by (auto simp: matches_at_def startswith_iff_append)

lemma matches_at_LitI [simp]:
  "matches_at (LitI p # r) b a ms gs \<longleftrightarrow>
     (\<exists>w y. a = w @ y \<and> ci_equal w p \<and> matches_at r (b @ w) y ms gs)"
proof
  assume "matches_at (LitI p # r) b a ms gs"
  then have c: "ci_prefix a p"
    and m: "matches_at r (b @ take (length p) a) (drop (length p) a) ms gs"
    by (auto simp: matches_at_def split: if_splits)
  from c have "ci_equal (take (length p) a) p"
    by (auto simp: ci_prefix_def ci_equal_def)
  moreover have "a = take (length p) a @ drop (length p) a" by simp
  ultimately show "\<exists>w y. a = w @ y \<and> ci_equal w p \<and> matches_at r (b @ w) y ms gs"
    using m by blast
next
  assume "\<exists>w y. a = w @ y \<and> ci_equal w p \<and> matches_at r (b @ w) y ms gs"
  then obtain w y where wy: "a = w @ y" "ci_equal w p" "matches_at r (b @ w) y ms gs" by blast
  have l: "length w = length p" using wy(2) by (rule ci_equal_length)
  then have "ci_prefix a p" using wy(1,2) by (auto simp: ci_prefix_def ci_equal_def)
  moreover have "take (length p) a = w" "drop (length p) a = y" using wy(1) l by auto
  ultimately show "matches_at (LitI p # r) b a ms gs"
    using wy(3) by (simp add: matches_at_def)
qed

lemma matches_at_Opt [simp]:
  "matches_at (Opt p # r) b a ms gs \<longleftrightarrow>
     (\<exists>y. a = p @ y \<and> matches_at r (b @ p) y ms gs) \<or> matches_at r b a ms gs"
  by (auto simp: matches_at_def startswith_iff_append split: option.splits)

lemma matches_at_Star [simp]:
  "matches_at (Star cs # r) b a ms gs \<longleftrightarrow>
     (\<exists>x y. a = x @ y \<and> (\<forall>c\<in>set x. cset_mem cs c) \<and> matches_at r (b @ x) y ms gs)"
proof -
  have "matches_at (Star cs # r) b a ms gs \<longleftrightarrow>
      (\<exists>k\<le>run_len cs a. matches_at r (b @ take k a) (drop k a) ms gs)"
    by (simp add: matches_at_def try_greedy_None_iff)
  then show ?thesis
    using split_by_run [of cs a "\<lambda>x y. matches_at r (b @ x) y ms gs"] by simp
qed

lemma matches_at_StarLazy [simp]:
  "matches_at (StarLazy cs # r) b a ms gs \<longleftrightarrow>
     (\<exists>x y. a = x @ y \<and> (\<forall>c\<in>set x. cset_mem cs c) \<and> matches_at r (b @ x) y ms gs)"
proof -
  have "matches_at (StarLazy cs # r) b a ms gs \<longleftrightarrow>
      (\<exists>k\<le>run_len cs a. matches_at r (b @ take k a) (drop k a) ms gs)"
    by (simp add: matches_at_def try_lazy_None_iff)
  then show ?thesis
    using split_by_run [of cs a "\<lambda>x y. matches_at r (b @ x) y ms gs"] by simp
qed

lemma matches_at_Plus [simp]:
  "matches_at (Plus cs # r) b a ms gs \<longleftrightarrow>
     (\<exists>x y. a = x @ y \<and> x \<noteq> [] \<and> (\<forall>c\<in>set x. cset_mem cs c) \<and> matches_at r (b @ x) y ms gs)"
proof -
  have "matches_at (Plus cs # r) b a ms gs \<longleftrightarrow>
      (\<exists>k\<le>run_len cs a. take k a \<noteq> [] \<and> matches_at r (b @ take k a) (drop k a) ms gs)"
    (is "?L \<longleftrightarrow> ?R")
  proof
    assume l: ?L
    have n: "run_len cs a \<noteq> 0" using l by (auto simp: matches_at_def split: if_splits)
    have "try_greedy (\<lambda>k. rx_run r (b @ take (Suc k) a) (drop (Suc k) a) ms gs)
        (run_len cs a - 1) \<noteq> None"
      using l n by (simp add: matches_at_def)
    then have "\<not> (\<forall>k\<le>run_len cs a - 1.
        rx_run r (b @ take (Suc k) a) (drop (Suc k) a) ms gs = None)"
      unfolding try_greedy_None_iff .
    then obtain k where k: "k \<le> run_len cs a - 1"
      "matches_at r (b @ take (Suc k) a) (drop (Suc k) a) ms gs"
      unfolding matches_at_def by blast
    have "Suc k \<le> run_len cs a" using k(1) n by simp
    moreover have "take (Suc k) a \<noteq> []" using n run_len_le [of cs a] by (cases a) auto
    ultimately show ?R using k(2) by blast
  next
    assume ?R
    then obtain k where k: "k \<le> run_len cs a" "take k a \<noteq> []"
      "matches_at r (b @ take k a) (drop k a) ms gs" by blast
    then obtain k' where k': "k = Suc k'" by (cases k) auto
    have n: "run_len cs a \<noteq> 0" using k(1) k' by simp
    have kl: "k' \<le> run_len cs a - 1" using k(1) k' by simp
    have nn: "rx_run r (b @ take (Suc k') a) (drop (Suc k') a) ms gs \<noteq> None"
      using k(3) k' by (simp add: matches_at_def)
    have "\<not> (\<forall>k\<le>run_len cs a - 1.
        rx_run r (b @ take (Suc k) a) (drop (Suc k) a) ms gs = None)"
    proof
      assume "\<forall>k\<le>run_len cs a - 1.
        rx_run r (b @ take (Suc k) a) (drop (Suc k) a) ms gs = None"
      from this [rule_format, OF kl] nn show False by simp
    qed
    then have "try_greedy (\<lambda>k. rx_run r (b @ take (Suc k) a) (drop (Suc k) a) ms gs)
        (run_len cs a - 1) \<noteq> None"
      unfolding try_greedy_None_iff .
    then show ?L using n by (simp add: matches_at_def)
  qed
  also have "\<dots> \<longleftrightarrow> (\<exists>x y. a = x @ y \<and> (\<forall>c\<in>set x. cset_mem cs c)
      \<and> x \<noteq> [] \<and> matches_at r (b @ x) y ms gs)"
    by (rule split_by_run [of cs a "\<lambda>x y. x \<noteq> [] \<and> matches_at r (b @ x) y ms gs"])
  also have "\<dots> \<longleftrightarrow> (\<exists>x y. a = x @ y \<and> x \<noteq> [] \<and> (\<forall>c\<in>set x. cset_mem cs c)
      \<and> matches_at r (b @ x) y ms gs)"
    by auto
  finally show ?thesis .
qed

lemma matches_at_Bol [simp]:
  "matches_at (Bol # r) b a ms gs \<longleftrightarrow> b = [] \<and> matches_at r b a ms gs"
  by (simp add: matches_at_def)

lemma matches_at_Eol [simp]:
  "matches_at (Eol # r) b a ms gs \<longleftrightarrow> (a = [] \<or> a = [LF]) \<and> matches_at r b a ms gs"
  by (simp add: matches_at_def)

lemma matches_at_WordB [simp]:
  "matches_at (WordB # r) b a ms gs \<longleftrightarrow> at_word_boundary b a \<and> matches_at r b a ms gs"
  by (simp add: matches_at_def)

lemma matches_at_GOpen [simp]:
  "matches_at (GOpen n # r) b a ms gs \<longleftrightarrow> matches_at r b a ((n, length b) # ms) gs"
  by (simp add: matches_at_def)

lemma matches_at_GClose [simp]:
  "matches_at (GClose n # r) b a ms gs \<longleftrightarrow>
     (\<exists>i. map_of ms n = Some i \<and> matches_at r b a ms ((n, drop i b) # gs))"
  by (auto simp: matches_at_def split: option.splits)

lemma search_from_Bol_later: "b \<noteq> [] \<Longrightarrow> search_from (Bol # r) b a = None"
  by (simp add: search_from_None_iff)

lemma rx_search_Bol: "rx_search (Bol # r) s = rx_match (Bol # r) s"
  by (cases s) (auto simp: rx_search_def rx_match_def search_from_Bol_later split: option.splits)

lemma rx_match_iff: "rx_match r s \<noteq> None \<longleftrightarrow> matches_at r [] s [] []"
  by (simp add: rx_match_def matches_at_def)

lemma rx_search_iff:
  "rx_search r s \<noteq> None \<longleftrightarrow> (\<exists>x y. s = x @ y \<and> matches_at r x y [] [])"
proof -
  have "rx_search r s \<noteq> None \<longleftrightarrow> (\<exists>j\<le>length s. matches_at r (take j s) (drop j s) [] [])"
    by (simp add: rx_search_def search_from_None_iff matches_at_def)
  also have "\<dots> \<longleftrightarrow> (\<exists>x y. s = x @ y \<and> matches_at r x y [] [])"
  proof
    assume "\<exists>j\<le>length s. matches_at r (take j s) (drop j s) [] []"
    then obtain j where "matches_at r (take j s) (drop j s) [] []" by blast
    moreover have "s = take j s @ drop j s" by simp
    ultimately show "\<exists>x y. s = x @ y \<and> matches_at r x y [] []" by blast
  next
    assume "\<exists>x y. s = x @ y \<and> matches_at r x y [] []"
    then obtain x y where "s = x @ y" "matches_at r x y [] []" by blast
    then have "length x \<le> length s \<and> matches_at r (take (length x) s) (drop (length x) s) [] []"
      by simp
    then show "\<exists>j\<le>length s. matches_at r (take j s) (drop j s) [] []" by blast
  qed
  finally show ?thesis .
qed

subsection \<open>Building a match from a decomposition of the text\<close>

lemma matches_at_Lit_intro:
  "matches_at r (b @ p) y ms gs \<Longrightarrow> matches_at (Lit p # r) b (p @ y) ms gs"
  by simp

lemma matches_at_LitI_intro:
  "\<lbrakk>ci_equal w p; matches_at r (b @ w) y ms gs\<rbrakk>
    \<Longrightarrow> matches_at (LitI p # r) b (w @ y) ms gs"
  unfolding matches_at_LitI by blast

lemma matches_at_StarI:
  "\<lbrakk>\<forall>c\<in>set x. cset_mem cs c; matches_at r (b @ x) y ms gs\<rbrakk>
    \<Longrightarrow> matches_at (Star cs # r) b (x @ y) ms gs"
  unfolding matches_at_Star by blast

lemma matches_at_PlusI:
  "\<lbrakk>x \<noteq> []; \<forall>c\<in>set x. cset_mem cs c; matches_at r (b @ x) y ms gs\<rbrakk>
    \<Longrightarrow> matches_at (Plus cs # r) b (x @ y) ms gs"
  unfolding matches_at_Plus by blast

lemma matches_at_OptI_taken:
  "matches_at r (b @ p) y ms gs \<Longrightarrow> matches_at (Opt p # r) b (p @ y) ms gs"
  by simp

lemma matches_at_OptI_skipped:
  "matches_at r b a ms gs \<Longrightarrow> matches_at (Opt p # r) b a ms gs"
  by simp

lemma matches_at_BolI: "matches_at r [] a ms gs \<Longrightarrow> matches_at (Bol # r) [] a ms gs"
  by simp

lemma matches_at_EolI: "matches_at r b [] ms gs \<Longrightarrow> matches_at (Eol # r) b [] ms gs"
  by simp

lemma cset_mem_NonWS [simp]: "cset_mem (Neg [WS]) c \<longleftrightarrow> \<not> is_space c"
  by simp

lemma is_space_LF [simp]: "is_space LF"
  by (simp add: is_space_def LF_def)

subsection \<open>Taking a match apart\<close>

lemma rx_BolE:
  assumes "rx_run (Bol # r) b a ms gs = Some m"
  obtains "b = []" "rx_run r b a ms gs = Some m"
  using assms by (simp split: if_splits)

lemma rx_EolE:
  assumes "rx_run (Eol # r) b a ms gs = Some m"
  obtains "a = [] \<or> a = [LF]" "rx_run r b a ms gs = Some m"
  using assms by (simp split: if_splits)

lemma rx_WordBE:
  assumes "rx_run (WordB # r) b a ms gs = Some m"
  obtains "at_word_boundary b a" "rx_run r b a ms gs = Some m"
  using assms by (simp split: if_splits)

lemma rx_LitE:
  assumes "rx_run (Lit p # r) b a ms gs = Some m"
  obtains y b' where "a = p @ y" "b' = b @ p" "rx_run r b' y ms gs = Some m"
proof -
  from assms have s: "startswith a p" and r: "rx_run r (b @ p) (drop (length p) a) ms gs = Some m"
    by (auto split: if_splits)
  from s have "a = p @ drop (length p) a"
    unfolding startswith_def by (metis append_take_drop_id)
  with r that show thesis by blast
qed

lemma rx_LitIE:
  assumes "rx_run (LitI p # r) b a ms gs = Some m"
  obtains w y b' where "a = w @ y" "b' = b @ w" "ci_equal w p" "rx_run r b' y ms gs = Some m"
proof -
  from assms have c: "ci_prefix a p"
    and r: "rx_run r (b @ take (length p) a) (drop (length p) a) ms gs = Some m"
    by (auto split: if_splits)
  from c have "ci_equal (take (length p) a) p" by (auto simp: ci_prefix_def ci_equal_def)
  moreover have "a = take (length p) a @ drop (length p) a" by simp
  ultimately show thesis using r that by blast
qed

lemma rx_OptE:
  assumes "rx_run (Opt p # r) b a ms gs = Some m"
  obtains (taken) y b' where "a = p @ y" "b' = b @ p" "rx_run r b' y ms gs = Some m"
    | (skipped) "rx_run r b a ms gs = Some m"
proof (cases "startswith a p")
  case s: True
  then have e: "a = p @ drop (length p) a"
    unfolding startswith_def by (metis append_take_drop_id)
  show thesis
  proof (cases "rx_run r (b @ p) (drop (length p) a) ms gs")
    case None
    then have "rx_run r b a ms gs = Some m" using assms s by simp
    then show thesis by (rule skipped)
  next
    case (Some m')
    then have "rx_run r (b @ p) (drop (length p) a) ms gs = Some m" using assms s by simp
    with e show thesis using taken by blast
  qed
next
  case False
  then have "rx_run r b a ms gs = Some m" using assms by simp
  then show thesis by (rule skipped)
qed

lemma rx_StarE:
  assumes "rx_run (Star cs # r) b a ms gs = Some m"
  obtains x y b' where "a = x @ y" "b' = b @ x" "\<forall>c\<in>set x. cset_mem cs c"
    "rx_run r b' y ms gs = Some m"
proof -
  from rx_run_Star_SomeD [OF assms] obtain k where
    k: "k \<le> run_len cs a" "rx_run r (b @ take k a) (drop k a) ms gs = Some m" by blast
  have "a = take k a @ drop k a" by simp
  with k(2) take_within_run [OF k(1)] that show thesis by blast
qed

lemma rx_StarLazyE:
  assumes "rx_run (StarLazy cs # r) b a ms gs = Some m"
  obtains x y b' where "a = x @ y" "b' = b @ x" "\<forall>c\<in>set x. cset_mem cs c"
    "rx_run r b' y ms gs = Some m"
proof -
  from rx_run_StarLazy_SomeD [OF assms] obtain k where
    k: "k \<le> run_len cs a" "rx_run r (b @ take k a) (drop k a) ms gs = Some m" by blast
  have "a = take k a @ drop k a" by simp
  with k(2) take_within_run [OF k(1)] that show thesis by blast
qed

lemma rx_PlusE:
  assumes "rx_run (Plus cs # r) b a ms gs = Some m"
  obtains x y b' where "a = x @ y" "b' = b @ x" "x \<noteq> []" "\<forall>c\<in>set x. cset_mem cs c"
    "rx_run r b' y ms gs = Some m"
proof -
  from assms have n: "run_len cs a \<noteq> 0"
    and t: "try_greedy (\<lambda>k. rx_run r (b @ take (Suc k) a) (drop (Suc k) a) ms gs)
        (run_len cs a - 1) = Some m"
    by (auto split: if_splits)
  from try_greedy_SomeD [OF t] obtain k where
    k: "k \<le> run_len cs a - 1" "rx_run r (b @ take (Suc k) a) (drop (Suc k) a) ms gs = Some m"
    by blast
  have le: "Suc k \<le> run_len cs a" using k(1) n by simp
  have "take (Suc k) a \<noteq> []" using n run_len_le [of cs a] by (cases a) auto
  moreover have "a = take (Suc k) a @ drop (Suc k) a" by simp
  ultimately show thesis using k(2) take_within_run [OF le] that by blast
qed

lemma rx_NilE:
  assumes "rx_run [] b a ms gs = Some m"
  obtains "m = (b, a, gs)"
  using assms by simp

subsection \<open>The heading patterns\<close>

lemma all_space_append [simp]: "all_space (x @ y) \<longleftrightarrow> all_space x \<and> all_space y"
  by (auto simp: all_space_def)

lemma all_space_Nil [simp]: "all_space []"
  by (simp add: all_space_def)

lemma all_space_LF [simp]: "all_space [LF]"
  by (simp add: all_space_def)

lemma all_space_iff_WS: "(\<forall>c\<in>set x. cset_mem WS c) \<longleftrightarrow> all_space x"
  by (simp add: all_space_def)

lemma only_hash_iff: "(\<forall>c\<in>set x. cset_mem (Ch (CHR ''#'')) c) \<longleftrightarrow> set x \<subseteq> {CHR ''#''}"
  by auto

lemma ws_eol_tail: "all_space x \<Longrightarrow> matches_at [Star WS, Eol] b x ms gs"
proof -
  assume x: "all_space x"
  have "matches_at [Eol] (b @ x) [] ms gs" by simp
  with x have "matches_at [Star WS, Eol] b (x @ []) ms gs"
    unfolding all_space_iff_WS [symmetric] by (rule matches_at_StarI)
  then show ?thesis by simp
qed

lemma heading_marked_iff: "rx_match HEADING_MARKED line \<noteq> None \<longleftrightarrow> heading_marked line"
proof
  assume "rx_match HEADING_MARKED line \<noteq> None"
  then obtain m where m: "rx_run [Bol, Star WS, Plus (Ch (CHR ''#'')), Star WS,
      LitI ''Post-apply steps'', Star WS, Eol] [] line [] [] = Some m"
    unfolding rx_match_def HEADING_MARKED_def by blast
  from m have "rx_run [Star WS, Plus (Ch (CHR ''#'')), Star WS,
      LitI ''Post-apply steps'', Star WS, Eol] [] line [] [] = Some m"
    by (rule rx_BolE)
  then obtain ws1 y1 b1 where s1: "line = ws1 @ y1" "\<forall>c\<in>set ws1. cset_mem WS c"
    and m1: "rx_run [Plus (Ch (CHR ''#'')), Star WS, LitI ''Post-apply steps'', Star WS, Eol]
      b1 y1 [] [] = Some m"
    by (rule rx_StarE) blast
  from m1 obtain hs y2 b2 where s2: "y1 = hs @ y2" "hs \<noteq> []"
      "\<forall>c\<in>set hs. cset_mem (Ch (CHR ''#'')) c"
    and m2: "rx_run [Star WS, LitI ''Post-apply steps'', Star WS, Eol] b2 y2 [] [] = Some m"
    by (rule rx_PlusE) blast
  from m2 obtain ws2 y3 b3 where s3: "y2 = ws2 @ y3" "\<forall>c\<in>set ws2. cset_mem WS c"
    and m3: "rx_run [LitI ''Post-apply steps'', Star WS, Eol] b3 y3 [] [] = Some m"
    by (rule rx_StarE) blast
  from m3 obtain t y4 b4 where s4: "y3 = t @ y4" "ci_equal t ''Post-apply steps''"
    and m4: "rx_run [Star WS, Eol] b4 y4 [] [] = Some m"
    by (rule rx_LitIE) blast
  from m4 obtain ws3 y5 b5 where s5: "y4 = ws3 @ y5" "\<forall>c\<in>set ws3. cset_mem WS c"
    and m5: "rx_run [Eol] b5 y5 [] [] = Some m"
    by (rule rx_StarE) blast
  from m5 have s6: "y5 = [] \<or> y5 = [LF]" by (rule rx_EolE)
  have l: "line = ws1 @ hs @ ws2 @ t @ (ws3 @ y5)"
    using s1(1) s2(1) s3(1) s4(1) s5(1) by simp
  have "all_space (ws3 @ y5)" using s5(2) s6 by (auto simp: all_space_def)
  then show "heading_marked line"
    unfolding heading_marked_def
    using l s1(2) s2(2,3) s3(2) s4(2) unfolding all_space_iff_WS only_hash_iff by blast
next
  assume "heading_marked line"
  then obtain ws1 hs ws2 t ws3 where d:
    "line = ws1 @ hs @ ws2 @ t @ ws3" "all_space ws1" "hs \<noteq> []" "set hs \<subseteq> {CHR ''#''}"
    "all_space ws2" "ci_equal t ''Post-apply steps''" "all_space ws3"
    unfolding heading_marked_def by blast
  have "matches_at [Star WS, Eol] b ws3 ms gs" for b ms gs
    using d(7) by (rule ws_eol_tail)
  then have "matches_at [LitI ''Post-apply steps'', Star WS, Eol] b (t @ ws3) ms gs" for b ms gs
    using d(6) by (intro matches_at_LitI_intro)
  then have "matches_at [Star WS, LitI ''Post-apply steps'', Star WS, Eol] b
      (ws2 @ t @ ws3) ms gs" for b ms gs
    using d(5) unfolding all_space_iff_WS [symmetric] by (intro matches_at_StarI)
  then have "matches_at [Plus (Ch (CHR ''#'')), Star WS, LitI ''Post-apply steps'', Star WS, Eol]
      b (hs @ ws2 @ t @ ws3) ms gs" for b ms gs
    using d(3,4) unfolding only_hash_iff [symmetric] by (intro matches_at_PlusI)
  then have "matches_at [Star WS, Plus (Ch (CHR ''#'')), Star WS, LitI ''Post-apply steps'',
      Star WS, Eol] [] (ws1 @ hs @ ws2 @ t @ ws3) [] []"
    using d(2) unfolding all_space_iff_WS [symmetric] by (intro matches_at_StarI)
  then have "matches_at HEADING_MARKED [] line [] []"
    unfolding HEADING_MARKED_def d(1) by (rule matches_at_BolI)
  then show "rx_match HEADING_MARKED line \<noteq> None"
    unfolding rx_match_iff .
qed

lemma heading_plain_iff: "rx_match HEADING_PLAIN line \<noteq> None \<longleftrightarrow> heading_plain line"
proof
  assume "rx_match HEADING_PLAIN line \<noteq> None"
  then obtain m where m: "rx_run [Bol, Star WS, LitI ''Post-apply steps'', Star WS, Opt '':'',
      Star WS, Eol] [] line [] [] = Some m"
    unfolding rx_match_def HEADING_PLAIN_def by blast
  from m have "rx_run [Star WS, LitI ''Post-apply steps'', Star WS, Opt '':'',
      Star WS, Eol] [] line [] [] = Some m"
    by (rule rx_BolE)
  then obtain ws1 y1 b1 where s1: "line = ws1 @ y1" "\<forall>c\<in>set ws1. cset_mem WS c"
    and m1: "rx_run [LitI ''Post-apply steps'', Star WS, Opt '':'', Star WS, Eol]
      b1 y1 [] [] = Some m"
    by (rule rx_StarE) blast
  from m1 obtain t y2 b2 where s2: "y1 = t @ y2" "ci_equal t ''Post-apply steps''"
    and m2: "rx_run [Star WS, Opt '':'', Star WS, Eol] b2 y2 [] [] = Some m"
    by (rule rx_LitIE) blast
  from m2 obtain ws2 y3 b3 where s3: "y2 = ws2 @ y3" "\<forall>c\<in>set ws2. cset_mem WS c"
    and m3: "rx_run [Opt '':'', Star WS, Eol] b3 y3 [] [] = Some m"
    by (rule rx_StarE) blast
  from m3 obtain colon y4 b4 where s4: "y3 = colon @ y4" "colon = [] \<or> colon = '':''"
    and m4: "rx_run [Star WS, Eol] b4 y4 [] [] = Some m"
  proof (cases rule: rx_OptE)
    case (taken y b')
    then show thesis using that [of "'':''" y b'] by simp
  next
    case skipped
    then show thesis using that [of "[]" y3 b3] by simp
  qed
  from m4 obtain ws3 y5 b5 where s5: "y4 = ws3 @ y5" "\<forall>c\<in>set ws3. cset_mem WS c"
    and m5: "rx_run [Eol] b5 y5 [] [] = Some m"
    by (rule rx_StarE) blast
  from m5 have s6: "y5 = [] \<or> y5 = [LF]" by (rule rx_EolE)
  have l: "line = ws1 @ t @ ws2 @ colon @ (ws3 @ y5)"
    using s1(1) s2(1) s3(1) s4(1) s5(1) by simp
  have "all_space (ws3 @ y5)" using s5(2) s6 by (auto simp: all_space_def)
  then show "heading_plain line"
    unfolding heading_plain_def
    using l s1(2) s2(2) s3(2) s4(2) unfolding all_space_iff_WS by blast
next
  assume "heading_plain line"
  then obtain ws1 t ws2 colon ws3 where d:
    "line = ws1 @ t @ ws2 @ colon @ ws3" "all_space ws1" "ci_equal t ''Post-apply steps''"
    "all_space ws2" "colon = [] \<or> colon = '':''" "all_space ws3"
    unfolding heading_plain_def by blast
  have tail: "matches_at [Star WS, Eol] b ws3 ms gs" for b ms gs
    using d(6) by (rule ws_eol_tail)
  have "matches_at [Opt '':'', Star WS, Eol] b (colon @ ws3) ms gs" for b ms gs
  proof (cases "colon = []")
    case True
    have "matches_at [Opt '':'', Star WS, Eol] b ws3 ms gs"
      using tail by (rule matches_at_OptI_skipped)
    then show ?thesis using True by simp
  next
    case False
    with d(5) have c: "colon = '':''" by simp
    have "matches_at [Opt '':'', Star WS, Eol] b ('':'' @ ws3) ms gs"
      using tail by (rule matches_at_OptI_taken)
    then show ?thesis unfolding c .
  qed
  then have "matches_at [Star WS, Opt '':'', Star WS, Eol] b (ws2 @ colon @ ws3) ms gs"
    for b ms gs
    using d(4) unfolding all_space_iff_WS [symmetric] by (intro matches_at_StarI)
  then have "matches_at [LitI ''Post-apply steps'', Star WS, Opt '':'', Star WS, Eol] b
      (t @ ws2 @ colon @ ws3) ms gs" for b ms gs
    using d(3) by (intro matches_at_LitI_intro)
  then have "matches_at [Star WS, LitI ''Post-apply steps'', Star WS, Opt '':'', Star WS, Eol]
      [] (ws1 @ t @ ws2 @ colon @ ws3) [] []"
    using d(2) unfolding all_space_iff_WS [symmetric] by (intro matches_at_StarI)
  then have "matches_at HEADING_PLAIN [] line [] []"
    unfolding HEADING_PLAIN_def d(1) by (rule matches_at_BolI)
  then show "rx_match HEADING_PLAIN line \<noteq> None"
    unfolding rx_match_iff .
qed

lemma starts_heading_iff: "rx_match NEXT_HEADING line \<noteq> None \<longleftrightarrow> starts_heading line"
proof
  assume "rx_match NEXT_HEADING line \<noteq> None"
  then obtain m where m: "rx_run [Bol, Star WS, Plus (Ch (CHR ''#'')), Star WS, Plus (Neg [WS])]
      [] line [] [] = Some m"
    unfolding rx_match_def NEXT_HEADING_def by blast
  from m have "rx_run [Star WS, Plus (Ch (CHR ''#'')), Star WS, Plus (Neg [WS])]
      [] line [] [] = Some m"
    by (rule rx_BolE)
  then obtain ws1 y1 b1 where s1: "line = ws1 @ y1" "\<forall>c\<in>set ws1. cset_mem WS c"
    and m1: "rx_run [Plus (Ch (CHR ''#'')), Star WS, Plus (Neg [WS])] b1 y1 [] [] = Some m"
    by (rule rx_StarE) blast
  from m1 obtain hs y2 b2 where s2: "y1 = hs @ y2" "hs \<noteq> []"
      "\<forall>c\<in>set hs. cset_mem (Ch (CHR ''#'')) c"
    and m2: "rx_run [Star WS, Plus (Neg [WS])] b2 y2 [] [] = Some m"
    by (rule rx_PlusE) blast
  from m2 obtain ws2 y3 b3 where s3: "y2 = ws2 @ y3" "\<forall>c\<in>set ws2. cset_mem WS c"
    and m3: "rx_run [Plus (Neg [WS])] b3 y3 [] [] = Some m"
    by (rule rx_StarE) blast
  from m3 obtain t y4 b4 where s4: "y3 = t @ y4" "t \<noteq> []" "\<forall>c\<in>set t. cset_mem (Neg [WS]) c"
    by (rule rx_PlusE) blast
  have l: "line = ws1 @ hs @ ws2 @ t @ y4"
    using s1(1) s2(1) s3(1) s4(1) by simp
  have "\<forall>c\<in>set t. \<not> is_space c" using s4(3) by simp
  then show "starts_heading line"
    unfolding starts_heading_def
    using l s1(2) s2(2,3) s3(2) s4(2) unfolding all_space_iff_WS only_hash_iff by blast
next
  assume "starts_heading line"
  then obtain ws1 hs ws2 t rest where d:
    "line = ws1 @ hs @ ws2 @ t @ rest" "all_space ws1" "hs \<noteq> []" "set hs \<subseteq> {CHR ''#''}"
    "all_space ws2" "t \<noteq> []" "\<forall>c\<in>set t. \<not> is_space c"
    unfolding starts_heading_def by blast
  have t: "\<forall>c\<in>set t. cset_mem (Neg [WS]) c" using d(7) by simp
  have "matches_at [] b rest ms gs" for b ms gs by simp
  then have "matches_at [Plus (Neg [WS])] b (t @ rest) ms gs" for b ms gs
    using d(6) t by (intro matches_at_PlusI)
  then have "matches_at [Star WS, Plus (Neg [WS])] b (ws2 @ t @ rest) ms gs" for b ms gs
    using d(5) unfolding all_space_iff_WS [symmetric] by (intro matches_at_StarI)
  then have "matches_at [Plus (Ch (CHR ''#'')), Star WS, Plus (Neg [WS])] b
      (hs @ ws2 @ t @ rest) ms gs" for b ms gs
    using d(3,4) unfolding only_hash_iff [symmetric] by (intro matches_at_PlusI)
  then have "matches_at [Star WS, Plus (Ch (CHR ''#'')), Star WS, Plus (Neg [WS])] []
      (ws1 @ hs @ ws2 @ t @ rest) [] []"
    using d(2) unfolding all_space_iff_WS [symmetric] by (intro matches_at_StarI)
  then have "matches_at NEXT_HEADING [] line [] []"
    unfolding NEXT_HEADING_def d(1) by (rule matches_at_BolI)
  then show "rx_match NEXT_HEADING line \<noteq> None"
    unfolding rx_match_iff .
qed

subsection \<open>The two loops of the steps extractor\<close>

lemma find_start_heading:
  "find_start (line # rest) i =
     (if is_steps_heading line then Some (i + 1) else find_start rest (i + 1))"
  using heading_marked_iff [of line] heading_plain_iff [of line]
  by (simp add: is_steps_heading_def)

lemma find_start_gt: "find_start ls i = Some k \<Longrightarrow> i < k"
proof (induction ls arbitrary: i)
  case Nil
  then show ?case by simp
next
  case (Cons l ls)
  show ?case
  proof (cases "is_steps_heading l")
    case True
    with Cons.prems show ?thesis by (simp only: find_start_heading if_True) simp
  next
    case False
    with Cons.prems have "find_start ls (i + 1) = Some k"
      by (simp only: find_start_heading if_False)
    from Cons.IH [OF this] show ?thesis by simp
  qed
qed

lemma find_start_None_iff:
  "find_start ls i = None \<longleftrightarrow> (\<forall>l\<in>set ls. \<not> is_steps_heading l)"
proof (induction ls arbitrary: i)
  case Nil
  show ?case by simp
next
  case (Cons l ls)
  show ?case unfolding find_start_heading using Cons.IH [of "i + 1"] by simp
qed

lemma find_start_Some:
  "find_start ls i = Some k
    \<Longrightarrow> drop (k - i) ls = tl (dropWhile (\<lambda>l. \<not> is_steps_heading l) ls)"
proof (induction ls arbitrary: i)
  case Nil
  then show ?case by simp
next
  case (Cons l ls)
  show ?case
  proof (cases "is_steps_heading l")
    case True
    with Cons.prems have "k = i + 1" by (simp only: find_start_heading if_True) simp
    then show ?thesis using True by simp
  next
    case False
    with Cons.prems have f: "find_start ls (i + 1) = Some k"
      by (simp only: find_start_heading if_False)
    from find_start_gt [OF f] have "k - i = Suc (k - (i + 1))" by simp
    then show ?thesis using Cons.IH [OF f] False by simp
  qed
qed

lemma collect_steps_takeWhile:
  "collect_steps collected ls = collected @ takeWhile (\<lambda>l. \<not> starts_heading l) ls"
proof (induction ls arbitrary: collected)
  case Nil
  show ?case by simp
next
  case (Cons l ls)
  show ?case using starts_heading_iff [of l] Cons.IH [of "collected @ [l]"] by simp
qed
subsection \<open>Character classes\<close>


lemma linebreak_is_space: "is_linebreak c \<Longrightarrow> is_space c"
  by (auto simp: is_space_def is_linebreak_def Let_def)

lemma is_linebreak_LF [simp]: "is_linebreak LF"
  by (simp add: is_linebreak_def LF_def)

lemma is_linebreak_CR [simp]: "is_linebreak CR"
  by (simp add: is_linebreak_def CR_def)

lemma LF_neq_CR [simp]: "LF \<noteq> CR"
  by (simp add: LF_def CR_def)

lemma of_char_py_lower:
  "(of_char (py_lower c) :: nat) =
     (if (65 \<le> (of_char c :: nat) \<and> (of_char c :: nat) \<le> 90)
         \<or> (192 \<le> (of_char c :: nat) \<and> (of_char c :: nat) \<le> 214)
         \<or> (216 \<le> (of_char c :: nat) \<and> (of_char c :: nat) \<le> 222)
      then of_char c + 32 else of_char c)"
  by (auto simp: py_lower_def Let_def of_char_of)

lemma py_lower_extraheader_word:
  assumes "py_lower c \<in> set ''extraheader''"
  shows "is_word c"
proof -
  from assms have "(of_char (py_lower c) :: nat) \<in> of_char ` set ''extraheader''"
    by (rule imageI)
  then have "(of_char (py_lower c) :: nat) \<in> {101, 120, 116, 114, 97, 104, 100}"
    by auto
  then have "97 \<le> (of_char (py_lower c) :: nat) \<and> (of_char (py_lower c) :: nat) \<le> 122"
    by auto
  then have "(65 \<le> (of_char c :: nat) \<and> (of_char c :: nat) \<le> 90)
      \<or> (97 \<le> (of_char c :: nat) \<and> (of_char c :: nat) \<le> 122)"
    unfolding of_char_py_lower by (simp split: if_splits)
  then show ?thesis
    unfolding is_word_def Let_def by blast
qed

lemma py_lower_fixes_extraheader: "map py_lower ''extraheader'' = ''extraheader''"
  by (simp add: py_lower_def)

lemma ci_equal_extraheader_chars:
  assumes "ci_equal w ''extraheader''"
  shows "\<forall>c\<in>set w. is_word c"
proof
  fix c assume "c \<in> set w"
  then have "py_lower c \<in> set (map py_lower w)" by simp
  also have "map py_lower w = ''extraheader''"
    using assms unfolding ci_equal_def py_lower_fixes_extraheader .
  finally show "is_word c" by (rule py_lower_extraheader_word)
qed

lemma ci_equal_extraheader_nonempty: "ci_equal w ''extraheader'' \<Longrightarrow> w \<noteq> []"
  by (auto simp: ci_equal_def)

subsection \<open>Trimming, continued\<close>

lemma set_rstrip: "set (rstrip s) \<subseteq> set s"
  unfolding rstrip_def using set_dropWhileD [of _ is_space "rev s"] by auto

lemma rstrip_Nil_iff: "rstrip s = [] \<longleftrightarrow> (\<forall>c\<in>set s. is_space c)"
  by (simp add: rstrip_def dropWhile_eq_Nil_conv)

lemma strip_nonempty_rstrip: "strip s \<noteq> [] \<Longrightarrow> rstrip s \<noteq> []"
proof
  assume a: "strip s \<noteq> []" and "rstrip s = []"
  then have "\<forall>c\<in>set s. is_space c" by (simp add: rstrip_Nil_iff)
  then have "lstrip s = []" by (simp add: lstrip_def)
  then have "strip s = []" by (simp add: strip_def)
  with a show False by simp
qed

subsection \<open>Lines\<close>

lemma splitlines_from_plain:
  "\<forall>c\<in>set l. \<not> is_linebreak c \<Longrightarrow> splitlines_from cur (l @ rest) = splitlines_from (cur @ l) rest"
proof (induction l arbitrary: cur)
  case Nil
  show ?case by simp
next
  case (Cons c l)
  then have c: "\<not> is_linebreak c" and l: "\<forall>c\<in>set l. \<not> is_linebreak c" by auto
  from c have ncr: "c \<noteq> CR" by auto
  show ?case
  proof (cases "l @ rest")
    case Nil
    then show ?thesis using c by simp
  next
    case (Cons d ds)
    have "splitlines_from cur ((c # l) @ rest) = splitlines_from cur (c # d # ds)"
      using Cons by simp
    also have "\<dots> = splitlines_from (cur @ [c]) (d # ds)" using c ncr by simp
    also have "\<dots> = splitlines_from (cur @ [c]) (l @ rest)" using Cons by simp
    also have "\<dots> = splitlines_from ((cur @ [c]) @ l) rest" by (rule Cons.IH [OF l])
    finally show ?thesis by simp
  qed
qed

lemma splitlines_from_LF: "splitlines_from cur (LF # rest) = cur # splitlines_from [] rest"
  by (cases rest) auto

lemma splitlines_join_LF:
  "\<lbrakk>\<forall>l\<in>set L. \<forall>c\<in>set l. \<not> is_linebreak c; L \<noteq> []\<rbrakk>
    \<Longrightarrow> splitlines (str_join [LF] L @ [LF]) = L"
proof (induction "[LF]" L rule: str_join.induct)
  case 1
  then show ?case by simp
next
  case (2 x)
  then have "\<forall>c\<in>set x. \<not> is_linebreak c" by simp
  then have "splitlines_from [] (x @ [LF]) = splitlines_from ([] @ x) [LF]"
    by (rule splitlines_from_plain)
  then show ?case by (simp add: splitlines_def)
next
  case (3 x y ys)
  then have x: "\<forall>c\<in>set x. \<not> is_linebreak c"
    and r: "\<forall>l\<in>set (y # ys). \<forall>c\<in>set l. \<not> is_linebreak c" by auto
  have ih: "splitlines_from [] (str_join [LF] (y # ys) @ [LF]) = y # ys"
    using 3(1) r by (simp add: splitlines_def)
  have "splitlines_from [] (x @ (LF # (str_join [LF] (y # ys) @ [LF])))
      = splitlines_from ([] @ x) (LF # (str_join [LF] (y # ys) @ [LF]))"
    using x by (rule splitlines_from_plain)
  also have "\<dots> = x # splitlines_from [] (str_join [LF] (y # ys) @ [LF])"
    by (simp add: splitlines_from_LF)
  finally show ?case using ih by (simp add: splitlines_def)
qed

lemma splitlines_join:
  "\<lbrakk>\<forall>l\<in>set L. \<forall>c\<in>set l. \<not> is_linebreak c; L \<noteq> []; last L \<noteq> []\<rbrakk>
    \<Longrightarrow> splitlines (str_join [LF] L) = L"
proof (induction "[LF]" L rule: str_join.induct)
  case 1
  then show ?case by simp
next
  case (2 x)
  then have "\<forall>c\<in>set x. \<not> is_linebreak c" and ne: "x \<noteq> []" by auto
  then have "splitlines_from [] (x @ []) = splitlines_from ([] @ x) []"
    by (intro splitlines_from_plain)
  then show ?case using ne by (simp add: splitlines_def)
next
  case (3 x y ys)
  then have x: "\<forall>c\<in>set x. \<not> is_linebreak c"
    and r: "\<forall>l\<in>set (y # ys). \<forall>c\<in>set l. \<not> is_linebreak c"
    and la: "last (y # ys) \<noteq> []" by auto
  have ih: "splitlines_from [] (str_join [LF] (y # ys)) = y # ys"
    using 3(1) r la by (simp add: splitlines_def)
  have "splitlines_from [] (x @ (LF # str_join [LF] (y # ys)))
      = splitlines_from ([] @ x) (LF # str_join [LF] (y # ys))"
    using x by (rule splitlines_from_plain)
  also have "\<dots> = x # splitlines_from [] (str_join [LF] (y # ys))"
    by (simp add: splitlines_from_LF)
  finally show ?case using ih by (simp add: splitlines_def)
qed

lemma splitlines_from_no_breaks:
  "\<forall>c\<in>set cur. \<not> is_linebreak c
    \<Longrightarrow> \<forall>l\<in>set (splitlines_from cur s). \<forall>c\<in>set l. \<not> is_linebreak c"
proof (induction cur s rule: splitlines_from.induct)
  case (1 cur)
  then show ?case by simp
next
  case (2 cur c)
  then show ?case by simp
next
  case (3 cur c d cs)
  show ?case
  proof (cases "c = CR \<and> d = LF")
    case True
    have "\<forall>l\<in>set (splitlines_from [] cs). \<forall>c\<in>set l. \<not> is_linebreak c"
      by (rule 3(1) [OF True]) simp
    moreover have "splitlines_from cur (c # d # cs) = cur # splitlines_from [] cs"
      using True by simp
    ultimately show ?thesis using 3(4) by simp
  next
    case False
    show ?thesis
    proof (cases "is_linebreak c")
      case lb: True
      have "\<forall>l\<in>set (splitlines_from [] (d # cs)). \<forall>c\<in>set l. \<not> is_linebreak c"
        by (rule 3(2) [OF False lb]) simp
      moreover have "splitlines_from cur (c # d # cs) = cur # splitlines_from [] (d # cs)"
        by (simp add: False lb)
      ultimately show ?thesis using 3(4) by simp
    next
      case nlb: False
      have "\<forall>c'\<in>set (cur @ [c]). \<not> is_linebreak c'" using 3(4) nlb by simp
      then have "\<forall>l\<in>set (splitlines_from (cur @ [c]) (d # cs)). \<forall>c\<in>set l. \<not> is_linebreak c"
        by (rule 3(3) [OF False nlb])
      moreover have "splitlines_from cur (c # d # cs) = splitlines_from (cur @ [c]) (d # cs)"
        by (simp add: False nlb)
      ultimately show ?thesis by simp
    qed
  qed
qed

lemma splitlines_no_breaks: "l \<in> set (splitlines s) \<Longrightarrow> c \<in> set l \<Longrightarrow> \<not> is_linebreak c"
  using splitlines_from_no_breaks [of "[]" s] by (auto simp: splitlines_def)

lemma splitlines_from_nonempty: "s \<noteq> [] \<Longrightarrow> splitlines_from cur s \<noteq> []"
  by (induction cur s rule: splitlines_from.induct) simp_all

lemma splitlines_Nil_iff: "splitlines s = [] \<longleftrightarrow> s = []"
  using splitlines_from_nonempty [of s "[]"] by (auto simp: splitlines_def)

lemma endswith_LF_iff: "endswith s [LF] \<longleftrightarrow> s \<noteq> [] \<and> last s = LF"
proof (cases s rule: rev_cases)
  case Nil
  then show ?thesis by (simp add: endswith_def)
next
  case (snoc xs x)
  then show ?thesis by (simp add: endswith_def)
qed



subsection \<open>The groups of a match are parts of the text\<close>

lemma rx_run_group_chars:
  "\<lbrakk>rx_run r b a ms gs = Some (b', a', gs'); (n, g) \<in> set gs'\<rbrakk>
    \<Longrightarrow> (n, g) \<in> set gs \<or> set g \<subseteq> set (b @ a)"
proof (induction r b a ms gs rule: rx_run.induct)
  case (1 b a ms gs)
  then show ?case by simp
next
  case (2 p r b a ms gs)
  from 2(2) obtain y b2 where "a = p @ y" "b2 = b @ p" "rx_run r b2 y ms gs = Some (b', a', gs')"
    by (rule rx_LitE) blast
  then show ?case using 2(1) 2(3) by (auto simp: startswith_iff_append)
next
  case (3 p r b a ms gs)
  from 3(2) have c: "ci_prefix a p"
    and r: "rx_run r (b @ take (length p) a) (drop (length p) a) ms gs = Some (b', a', gs')"
    by (auto split: if_splits)
  from 3(1) [OF c r 3(3)] show ?case
    using set_take_subset [of "length p" a] set_drop_subset [of "length p" a] by auto
next
  case (4 p r b a ms gs)
  from 4(3) show ?case
  proof (cases rule: rx_OptE)
    case (taken y b2)
    then have s: "startswith a p" by (simp add: startswith_iff_append)
    from taken have "rx_run r (b @ p) (drop (length p) a) ms gs = Some (b', a', gs')" by simp
    from 4(1) [OF s this 4(4)] taken(1) show ?thesis by auto
  next
    case skipped
    have "(if startswith a p then rx_run r (b @ p) (drop (length p) a) ms gs else None) = None
        \<or> rx_run r b a ms gs = Some (b', a', gs')" using skipped by simp
    show ?thesis
    proof (cases "if startswith a p then rx_run r (b @ p) (drop (length p) a) ms gs else None")
      case None
      from 4(2) [OF None skipped 4(4)] show ?thesis .
    next
      case (Some m')
      then have s: "startswith a p" and "rx_run r (b @ p) (drop (length p) a) ms gs = Some m'"
        by (auto split: if_splits)
      moreover from this 4(3) have "m' = (b', a', gs')" by simp
      ultimately have "rx_run r (b @ p) (drop (length p) a) ms gs = Some (b', a', gs')" by simp
      from 4(1) [OF s this 4(4)] s show ?thesis
        by (auto simp: startswith_iff_append)
    qed
  qed
next
  case (5 cs r b a ms gs)
  from rx_run_Star_SomeD [OF 5(2)] obtain k where
    "rx_run r (b @ take k a) (drop k a) ms gs = Some (b', a', gs')" by blast
  from 5(1) [OF this 5(3)] show ?case
    using set_take_subset [of k a] set_drop_subset [of k a] by auto
next
  case (6 cs r b a ms gs)
  from 6(2) have n: "run_len cs a \<noteq> 0"
    and t: "try_greedy (\<lambda>k. rx_run r (b @ take (Suc k) a) (drop (Suc k) a) ms gs)
        (run_len cs a - 1) = Some (b', a', gs')"
    by (auto split: if_splits)
  from try_greedy_SomeD [OF t] obtain k where
    "rx_run r (b @ take (Suc k) a) (drop (Suc k) a) ms gs = Some (b', a', gs')" by blast
  from 6(1) [OF n this 6(3)] show ?case
    using set_take_subset [of "Suc k" a] set_drop_subset [of "Suc k" a] by auto
next
  case (7 cs r b a ms gs)
  from rx_run_StarLazy_SomeD [OF 7(2)] obtain k where
    "rx_run r (b @ take k a) (drop k a) ms gs = Some (b', a', gs')" by blast
  from 7(1) [OF this 7(3)] show ?case
    using set_take_subset [of k a] set_drop_subset [of k a] by auto
next
  case (8 r b a ms gs)
  then show ?case by (auto split: if_splits)
next
  case (9 r b a ms gs)
  then show ?case by (auto split: if_splits)
next
  case (10 r b a ms gs)
  then show ?case by (auto split: if_splits)
next
  case (11 n' r b a ms gs)
  then show ?case by auto
next
  case (12 n' r b a ms gs)
  from 12(2) obtain i where i: "map_of ms n' = Some i"
    and r: "rx_run r b a ms ((n', drop i b) # gs) = Some (b', a', gs')"
    by (auto split: option.splits)
  from 12(1) [OF i r 12(3)] show ?case
    using set_drop_subset [of i b] by auto
qed

lemma mgroup_chars_run:
  assumes "rx_run r b a ms [] = Some m"
  shows "set (mgroup m n) \<subseteq> set (b @ a)"
proof (cases "map_of (snd (snd m)) n")
  case None
  then show ?thesis by (simp add: mgroup_def)
next
  case (Some g)
  obtain b' a' gs' where m: "m = (b', a', gs')" by (cases m) auto
  from Some m have "(n, g) \<in> set gs'" by (auto dest: map_of_SomeD)
  from rx_run_group_chars [OF assms [unfolded m] this] have "set g \<subseteq> set (b @ a)" by simp
  then show ?thesis using Some by (simp add: mgroup_def)
qed

lemma mgroup_chars_match: "rx_match r s = Some m \<Longrightarrow> set (mgroup m n) \<subseteq> set s"
  using mgroup_chars_run [of r "[]" s "[]" m n] by (simp add: rx_match_def)

lemma mgroup_chars_search:
  assumes "rx_search r s = Some m"
  shows "set (mgroup m n) \<subseteq> set s"
proof -
  from assms obtain j where "rx_run r ([] @ take j s) (drop j s) [] [] = Some m"
    unfolding rx_search_def by (blast dest: search_from_SomeD)
  from mgroup_chars_run [OF this, of n] show ?thesis
    by (metis append_Nil append_take_drop_id)
qed

subsection \<open>The lines of the sanitizer\<close>

lemma sanitize_loop_map: "sanitize_loop acc ls = acc @ map sanitize_line ls"
  by (induction ls arbitrary: acc)
     (simp_all add: sanitize_line_def Let_def split: option.splits)

subsection \<open>The pattern of the credential header\<close>

lemma boundary_before:
  "\<lbrakk>w \<noteq> []; is_word (hd w)\<rbrakk>
    \<Longrightarrow> at_word_boundary x (w @ z) \<longleftrightarrow> (x = [] \<or> \<not> is_word (last x))"
  by (auto simp: at_word_boundary_def)

lemma boundary_after:
  "\<lbrakk>w \<noteq> []; is_word (last w)\<rbrakk>
    \<Longrightarrow> at_word_boundary (x @ w) z \<longleftrightarrow> (z = [] \<or> \<not> is_word (hd z))"
  by (auto simp: at_word_boundary_def)

lemma extraheader_iff: "rx_search EXTRAHEADER line \<noteq> None \<longleftrightarrow> credential_header line"
proof -
  have "rx_search EXTRAHEADER line \<noteq> None \<longleftrightarrow>
      (\<exists>x y. line = x @ y \<and> at_word_boundary x y
         \<and> (\<exists>w z. y = w @ z \<and> ci_equal w ''extraheader'' \<and> at_word_boundary (x @ w) z))"
    unfolding rx_search_iff EXTRAHEADER_def by simp
  also have "\<dots> \<longleftrightarrow> (\<exists>x w z. line = x @ w @ z \<and> ci_equal w ''extraheader''
      \<and> at_word_boundary x (w @ z) \<and> at_word_boundary (x @ w) z)"
    by blast
  also have "\<dots> \<longleftrightarrow> credential_header line"
    unfolding credential_header_def
  proof (intro iff_exI)
    fix x w z
    show "(line = x @ w @ z \<and> ci_equal w ''extraheader''
          \<and> at_word_boundary x (w @ z) \<and> at_word_boundary (x @ w) z)
      \<longleftrightarrow> (line = x @ w @ z \<and> ci_equal w ''extraheader''
          \<and> (x = [] \<or> \<not> is_word (last x)) \<and> (z = [] \<or> \<not> is_word (hd z)))"
    proof (cases "ci_equal w ''extraheader''")
      case True
      then have ne: "w \<noteq> []" and wc: "\<forall>c\<in>set w. is_word c"
        by (auto dest: ci_equal_extraheader_nonempty ci_equal_extraheader_chars)
      then have "is_word (hd w)" "is_word (last w)" by auto
      then show ?thesis using ne by (simp add: boundary_before boundary_after)
    next
      case False
      then show ?thesis by simp
    qed
  qed
  finally show ?thesis .
qed

subsection \<open>The pattern of the url line\<close>

lemma url_line_groups:
  assumes m: "rx_search URL_LINE line = Some m" and nlf: "LF \<notin> set line"
  obtains ws1 ws2 ws3 u ws4 where
    "line = ws1 @ ''url'' @ ws2 @ ''='' @ ws3 @ u @ ws4"
    "all_space ws1" "all_space ws2" "all_space ws3" "u \<noteq> []" "\<forall>c\<in>set u. \<not> is_space c"
    "all_space ws4"
    "mgroup m 1 = ws1 @ ''url'' @ ws2 @ ''='' @ ws3" "mgroup m 2 = u" "mgroup m 3 = ws4"
proof -
  from m have "rx_run [Bol, GOpen 1, Star WS, Lit ''url'', Star WS, Lit ''='', Star WS, GClose 1,
      GOpen 2, Plus (Neg [WS]), GClose 2, GOpen 3, Star WS, GClose 3, Eol] [] line [] [] = Some m"
    unfolding URL_LINE_def rx_search_Bol rx_match_def .
  then have "rx_run [GOpen 1, Star WS, Lit ''url'', Star WS, Lit ''='', Star WS, GClose 1,
      GOpen 2, Plus (Neg [WS]), GClose 2, GOpen 3, Star WS, GClose 3, Eol] [] line [] [] = Some m"
    by (rule rx_BolE)
  then have r1: "rx_run [Star WS, Lit ''url'', Star WS, Lit ''='', Star WS, GClose 1,
      GOpen 2, Plus (Neg [WS]), GClose 2, GOpen 3, Star WS, GClose 3, Eol]
      [] line [(1, 0)] [] = Some m"
    by (simp only: rx_run_GOpen list.size)
  from r1 obtain ws1 y1 b1 where s1: "line = ws1 @ y1" "b1 = [] @ ws1"
      "\<forall>c\<in>set ws1. cset_mem WS c"
    and r2: "rx_run [Lit ''url'', Star WS, Lit ''='', Star WS, GClose 1,
      GOpen 2, Plus (Neg [WS]), GClose 2, GOpen 3, Star WS, GClose 3, Eol]
      b1 y1 [(1, 0)] [] = Some m"
    by (rule rx_StarE) blast
  from r2 obtain y2 b2 where s2: "y1 = ''url'' @ y2" "b2 = b1 @ ''url''"
    and r3: "rx_run [Star WS, Lit ''='', Star WS, GClose 1,
      GOpen 2, Plus (Neg [WS]), GClose 2, GOpen 3, Star WS, GClose 3, Eol]
      b2 y2 [(1, 0)] [] = Some m"
    by (rule rx_LitE) blast
  from r3 obtain ws2 y3 b3 where s3: "y2 = ws2 @ y3" "b3 = b2 @ ws2"
      "\<forall>c\<in>set ws2. cset_mem WS c"
    and r4: "rx_run [Lit ''='', Star WS, GClose 1,
      GOpen 2, Plus (Neg [WS]), GClose 2, GOpen 3, Star WS, GClose 3, Eol]
      b3 y3 [(1, 0)] [] = Some m"
    by (rule rx_StarE) blast
  from r4 obtain y4 b4 where s4: "y3 = ''='' @ y4" "b4 = b3 @ ''=''"
    and r5: "rx_run [Star WS, GClose 1,
      GOpen 2, Plus (Neg [WS]), GClose 2, GOpen 3, Star WS, GClose 3, Eol]
      b4 y4 [(1, 0)] [] = Some m"
    by (rule rx_LitE) blast
  from r5 obtain ws3 y5 b5 where s5: "y4 = ws3 @ y5" "b5 = b4 @ ws3"
      "\<forall>c\<in>set ws3. cset_mem WS c"
    and r6: "rx_run [GClose 1, GOpen 2, Plus (Neg [WS]), GClose 2, GOpen 3, Star WS, GClose 3, Eol]
      b5 y5 [(1, 0)] [] = Some m"
    by (rule rx_StarE) blast
  from r6 have "rx_run [GOpen 2, Plus (Neg [WS]), GClose 2, GOpen 3, Star WS, GClose 3, Eol]
      b5 y5 [(1, 0)] [(1, drop 0 b5)] = Some m"
    by (simp only: rx_run_GClose_hit)
  then have r8: "rx_run [Plus (Neg [WS]), GClose 2, GOpen 3, Star WS, GClose 3, Eol]
      b5 y5 [(2, length b5), (1, 0)] [(1, drop 0 b5)] = Some m"
    by (simp only: rx_run_GOpen)
  from r8 obtain u y6 b6 where s6: "y5 = u @ y6" "b6 = b5 @ u" "u \<noteq> []"
      "\<forall>c\<in>set u. cset_mem (Neg [WS]) c"
    and r9: "rx_run [GClose 2, GOpen 3, Star WS, GClose 3, Eol]
      b6 y6 [(2, length b5), (1, 0)] [(1, drop 0 b5)] = Some m"
    by (rule rx_PlusE) blast
  from r9 have "rx_run [GOpen 3, Star WS, GClose 3, Eol]
      b6 y6 [(2, length b5), (1, 0)] [(2, drop (length b5) b6), (1, drop 0 b5)] = Some m"
    by (simp only: rx_run_GClose_hit)
  then have r11: "rx_run [Star WS, GClose 3, Eol]
      b6 y6 [(3, length b6), (2, length b5), (1, 0)]
      [(2, drop (length b5) b6), (1, drop 0 b5)] = Some m"
    by (simp only: rx_run_GOpen)
  from r11 obtain ws4 y7 b7 where s7: "y6 = ws4 @ y7" "b7 = b6 @ ws4"
      "\<forall>c\<in>set ws4. cset_mem WS c"
    and r12: "rx_run [GClose 3, Eol]
      b7 y7 [(3, length b6), (2, length b5), (1, 0)]
      [(2, drop (length b5) b6), (1, drop 0 b5)] = Some m"
    by (rule rx_StarE) blast
  from r12 have r13: "rx_run [Eol]
      b7 y7 [(3, length b6), (2, length b5), (1, 0)]
      [(3, drop (length b6) b7), (2, drop (length b5) b6), (1, drop 0 b5)] = Some m"
    by (simp only: rx_run_GClose_hit)
  from r13 have e: "y7 = [] \<or> y7 = [LF]" by (rule rx_EolE)
  from r13 have "rx_run []
      b7 y7 [(3, length b6), (2, length b5), (1, 0)]
      [(3, drop (length b6) b7), (2, drop (length b5) b6), (1, drop 0 b5)] = Some m"
    by (rule rx_EolE)
  then have mm: "m = (b7, y7, [(3, drop (length b6) b7), (2, drop (length b5) b6),
      (1, drop 0 b5)])"
    by simp
  have l: "line = ws1 @ ''url'' @ ws2 @ ''='' @ ws3 @ u @ ws4 @ y7"
    using s1(1) s2(1) s3(1) s4(1) s5(1) s6(1) s7(1) by simp
  have "LF \<notin> set y7" using nlf unfolding l by simp
  with e have y7: "y7 = []" by auto
  have b5: "b5 = ws1 @ ''url'' @ ws2 @ ''='' @ ws3"
    using s1(2) s2(2) s3(2) s4(2) s5(2) by simp
  have g1: "mgroup m 1 = ws1 @ ''url'' @ ws2 @ ''='' @ ws3"
    unfolding mm mgroup_def using b5 by simp
  have g2: "mgroup m 2 = u" unfolding mm mgroup_def using s6(2) by simp
  have g3: "mgroup m 3 = ws4" unfolding mm mgroup_def using s7(2) by simp
  have u: "\<forall>c\<in>set u. \<not> is_space c" using s6(4) by simp
  show thesis
  proof (rule that [of ws1 ws2 ws3 u ws4])
    show "line = ws1 @ ''url'' @ ws2 @ ''='' @ ws3 @ u @ ws4" using l y7 by simp
    show "all_space ws1" using s1(3) by (simp add: all_space_def)
    show "all_space ws2" using s3(3) by (simp add: all_space_def)
    show "all_space ws3" using s5(3) by (simp add: all_space_def)
    show "u \<noteq> []" by (rule s6(3))
    show "\<forall>c\<in>set u. \<not> is_space c" by (rule u)
    show "all_space ws4" using s7(3) by (simp add: all_space_def)
    show "mgroup m 1 = ws1 @ ''url'' @ ws2 @ ''='' @ ws3" by (rule g1)
    show "mgroup m 2 = u" by (rule g2)
    show "mgroup m 3 = ws4" by (rule g3)
  qed
qed

subsection \<open>One sanitized line\<close>

lemma redacted_mark_chars: "\<forall>c\<in>set ''= <redacted>''. \<not> is_linebreak c"
  by (simp add: is_linebreak_def)

lemma sanitize_line_chars: "set (sanitize_line l) \<subseteq> set l \<union> set ''= <redacted>''"
proof (cases "rx_search EXTRAHEADER l \<noteq> None")
  case True
  have "set (takeWhile (\<lambda>c. c \<noteq> CHR ''='') l) \<subseteq> set l" by (auto dest: set_takeWhileD)
  then show ?thesis using True by (auto simp: sanitize_line_def split_eq_1_def)
next
  case False
  show ?thesis
  proof (cases "rx_search URL_LINE l")
    case None
    then show ?thesis using False set_rstrip [of l] by (auto simp: sanitize_line_def)
  next
    case (Some m)
    have g: "set (mgroup m n) \<subseteq> set l" for n by (rule mgroup_chars_search [OF Some])
    define url' where "url' = (case rx_match HTTP_URL_WITH_USERINFO (mgroup m 2) of
        Some url_match \<Rightarrow> mgroup url_match 1 @ mgroup url_match 3 | None \<Rightarrow> mgroup m 2)"
    have "set url' \<subseteq> set (mgroup m 2)"
      unfolding url'_def using mgroup_chars_match [of HTTP_URL_WITH_USERINFO "mgroup m 2"]
      by (auto split: option.splits)
    then have "set (mgroup m 1 @ url' @ mgroup m 3) \<subseteq> set l"
      using g [of 1] g [of 2] g [of 3] by auto
    then have "set (rstrip (mgroup m 1 @ url' @ mgroup m 3)) \<subseteq> set l"
      using set_rstrip [of "mgroup m 1 @ url' @ mgroup m 3"] by blast
    moreover have "sanitize_line l = rstrip (mgroup m 1 @ url' @ mgroup m 3)"
      using False Some by (simp add: sanitize_line_def url'_def)
    ultimately show ?thesis by auto
  qed
qed

lemma sanitize_line_no_breaks:
  assumes "\<forall>c\<in>set l. \<not> is_linebreak c"
  shows "\<forall>c\<in>set (sanitize_line l). \<not> is_linebreak c"
  using assms sanitize_line_chars [of l] redacted_mark_chars by blast

lemma sanitize_line_nonempty:
  assumes s: "strip l \<noteq> []" and nlf: "LF \<notin> set l"
  shows "sanitize_line l \<noteq> []"
proof (cases "rx_search EXTRAHEADER l \<noteq> None")
  case True
  then show ?thesis by (simp add: sanitize_line_def)
next
  case False
  show ?thesis
  proof (cases "rx_search URL_LINE l")
    case None
    then show ?thesis using False strip_nonempty_rstrip [OF s] by (simp add: sanitize_line_def)
  next
    case (Some m)
    from url_line_groups [OF Some nlf] obtain ws1 ws2 ws3 where
      g1: "mgroup m 1 = ws1 @ ''url'' @ ws2 @ ''='' @ ws3" by metis
    define url' where "url' = (case rx_match HTTP_URL_WITH_USERINFO (mgroup m 2) of
        Some url_match \<Rightarrow> mgroup url_match 1 @ mgroup url_match 3 | None \<Rightarrow> mgroup m 2)"
    have "CHR ''u'' \<in> set (mgroup m 1 @ url' @ mgroup m 3)" unfolding g1 by simp
    moreover have "\<not> is_space (CHR ''u'')" by (simp add: is_space_def)
    ultimately have "rstrip (mgroup m 1 @ url' @ mgroup m 3) \<noteq> []"
      unfolding rstrip_Nil_iff by blast
    moreover have "sanitize_line l = rstrip (mgroup m 1 @ url' @ mgroup m 3)"
      using False Some by (simp add: sanitize_line_def url'_def)
    ultimately show ?thesis by simp
  qed
qed

lemma redacted_drops_value:
  "CHR ''='' \<notin> set key \<Longrightarrow> redacted (key @ ''='' @ v) = key @ ''= <redacted>''"
proof -
  assume k: "CHR ''='' \<notin> set key"
  then have "\<forall>c\<in>set key. c \<noteq> CHR ''=''" by auto
  then have "takeWhile (\<lambda>c. c \<noteq> CHR ''='') (key @ ''='' @ v) = key"
    by (simp add: takeWhile_append2)
  then show ?thesis by (simp add: redacted_def)
qed

lemma sanitize_line_credential:
  "credential_header line \<Longrightarrow> sanitize_line line = redacted line"
  unfolding extraheader_iff [symmetric]
  by (simp add: sanitize_line_def redacted_def split_eq_1_def)

subsection \<open>Url lines that carry user-info\<close>


subsection \<open>Where a word can lie in a text\<close>



lemma not_word_at [simp]: "\<not> is_word (CHR ''@'')"
  by (simp add: is_word_def)



subsection \<open>The pattern of the url with user information\<close>


subsection \<open>Sanitizing a sanitized line\<close>






subsection \<open>Sanitizing a text of sanitized lines\<close>




subsection \<open>The archive builder\<close>

lemma is_digit_char_of: "n < 10 \<Longrightarrow> is_digit (char_of (48 + (n :: nat)))"
  by (simp add: is_digit_def)

lemma digit_value_char_of: "n < 10 \<Longrightarrow> (of_char (char_of (48 + (n :: nat))) :: nat) - 48 = n"
  by simp

lemma dec_value_snoc: "dec_value (ds @ [c]) = 10 * dec_value ds + (of_char c - 48)"
  by (simp add: dec_value_def)

lemma str_nat_digits: "\<forall>c\<in>set (str_nat n). is_digit c"
proof (induction n rule: str_nat.induct)
  case (1 n)
  show ?case
  proof (cases "n < 10")
    case True
    then show ?thesis by (subst str_nat.simps) (simp add: is_digit_char_of)
  next
    case False
    have "n mod 10 < 10" by simp
    then have "is_digit (char_of (48 + n mod 10))" by (rule is_digit_char_of)
    then show ?thesis using False 1 by (subst str_nat.simps) simp
  qed
qed

lemma str_nat_nonempty: "str_nat n \<noteq> []"
  by (subst str_nat.simps) simp

lemma dec_value_str_nat: "dec_value (str_nat n) = n"
proof (induction n rule: str_nat.induct)
  case (1 n)
  show ?case
  proof (cases "n < 10")
    case True
    then have "str_nat n = [char_of (48 + n)]" by (subst str_nat.simps) simp
    then show ?thesis using True by (simp add: dec_value_def)
  next
    case False
    then have s: "str_nat n = str_nat (n div 10) @ [char_of (48 + n mod 10)]"
      by (subst str_nat.simps) simp
    have "n mod 10 < 10" by simp
    then have d: "(of_char (char_of (48 + n mod 10)) :: nat) - 48 = n mod 10"
      by (rule digit_value_char_of)
    have "dec_value (str_nat n) = 10 * dec_value (str_nat (n div 10)) + n mod 10"
      unfolding s dec_value_snoc d ..
    also have "\<dots> = 10 * (n div 10) + n mod 10" using 1 False by simp
    finally show ?thesis by simp
  qed
qed

lemma numbers_in_skip:
  "\<forall>c\<in>set lit. \<not> is_digit c \<and> c \<noteq> CHR ''-'' \<Longrightarrow> numbers_in (lit @ rest) = numbers_in rest"
  by (induction lit) simp_all

lemma takeWhile_digits:
  "\<forall>c\<in>set ds. is_digit c \<Longrightarrow> \<not> is_digit c \<Longrightarrow> takeWhile is_digit (ds @ c # rest) = ds"
  by (induction ds) simp_all

lemma dropWhile_digits:
  "\<forall>c\<in>set ds. is_digit c \<Longrightarrow> \<not> is_digit c \<Longrightarrow> dropWhile is_digit (ds @ c # rest) = c # rest"
  by (induction ds) simp_all

lemma numbers_in_digits:
  assumes d: "\<forall>c\<in>set ds. is_digit c" and ne: "ds \<noteq> []" and c: "\<not> is_digit c"
  shows "numbers_in (ds @ c # rest) = int (dec_value ds) # numbers_in (c # rest)"
proof -
  obtain x xs where ds: "ds = x # xs" using ne by (cases ds) auto
  have x: "is_digit x" and xs: "\<forall>c\<in>set xs. is_digit c" using d unfolding ds by simp_all
  have "numbers_in (ds @ c # rest) =
      int (dec_value (takeWhile is_digit (ds @ c # rest))) # numbers_in (dropWhile is_digit (xs @ c # rest))"
    unfolding ds using x by simp
  then show ?thesis
    using takeWhile_digits [OF d c, of rest] dropWhile_digits [OF xs c, of rest] by simp
qed

lemma not_digit_minus: "\<not> is_digit (CHR ''-'')"
  by (simp add: is_digit_def)

lemma numbers_in_minus_digits:
  assumes d: "\<forall>c\<in>set ds. is_digit c" and ne: "ds \<noteq> []" and c: "\<not> is_digit c"
  shows "numbers_in (CHR ''-'' # ds @ c # rest) = (- int (dec_value ds)) # numbers_in (c # rest)"
proof -
  have h: "is_digit (hd (ds @ c # rest))" using d ne by (cases ds) auto
  have "numbers_in (CHR ''-'' # ds @ c # rest) =
      (- int (dec_value (takeWhile is_digit (ds @ c # rest))))
        # numbers_in (dropWhile is_digit (ds @ c # rest))"
    using h not_digit_minus by simp
  then show ?thesis
    using takeWhile_digits [OF d c, of rest] dropWhile_digits [OF d c, of rest] by simp
qed

lemma numbers_in_str_int:
  assumes c: "\<not> is_digit c"
  shows "numbers_in (str_int i @ c # rest) = i # numbers_in (c # rest)"
proof (cases "i < 0")
  case True
  have "numbers_in (CHR ''-'' # str_nat (nat (- i)) @ c # rest)
      = (- int (dec_value (str_nat (nat (- i))))) # numbers_in (c # rest)"
    using str_nat_digits str_nat_nonempty c by (rule numbers_in_minus_digits)
  then show ?thesis using True by (simp add: str_int_def dec_value_str_nat)
next
  case False
  have "numbers_in (str_nat (nat i) @ c # rest)
      = int (dec_value (str_nat (nat i))) # numbers_in (c # rest)"
    using str_nat_digits str_nat_nonempty c by (rule numbers_in_digits)
  then show ?thesis using False by (simp add: str_int_def dec_value_str_nat)
qed

lemma numbers_in_message:
  "numbers_in (''Bundle zip is '' @ str_int a @ '' bytes, exceeds limit '' @ str_int b
      @ ''. Use --max-zip-bytes to raise the limit or set --include-git none.'') = [a, b]"
proof -
  have t: "numbers_in ''. Use --max-zip-bytes to raise the limit or set --include-git none.'' = []"
    by code_simp
  have 1: "numbers_in (str_int b @ ''. Use --max-zip-bytes to raise the limit or set --include-git none.'')
      = [b]"
    using numbers_in_str_int [of "CHR ''.''" b "'' Use --max-zip-bytes to raise the limit or set --include-git none.''"] t
    by (simp add: is_digit_def)
  have 2: "numbers_in ('' bytes, exceeds limit '' @ str_int b
      @ ''. Use --max-zip-bytes to raise the limit or set --include-git none.'') = [b]"
    using numbers_in_skip [of "'' bytes, exceeds limit ''"
        "str_int b @ ''. Use --max-zip-bytes to raise the limit or set --include-git none.''"] 1
    by (simp add: is_digit_def)
  have 3: "numbers_in (str_int a @ '' bytes, exceeds limit '' @ str_int b
      @ ''. Use --max-zip-bytes to raise the limit or set --include-git none.'') = [a, b]"
    using numbers_in_str_int [of "CHR '' ''" a "''bytes, exceeds limit '' @ str_int b
      @ ''. Use --max-zip-bytes to raise the limit or set --include-git none.''"] 2
    by (simp add: is_digit_def)
  show ?thesis
    using numbers_in_skip [of "''Bundle zip is ''" "str_int a @ '' bytes, exceeds limit '' @ str_int b
      @ ''. Use --max-zip-bytes to raise the limit or set --include-git none.''"] 3
    by (simp add: is_digit_def)
qed

lemma zip_add_file_quiet:
  assumes "quiet E"
  shows "\<exists>zf'. zip_add_file zf (fs E p) a = Inr zf'"
proof -
  have b: "benign (readlink (fs E p))" "benign (file_bytes (fs E p))"
    using assms unfolding quiet_def by blast+
  show ?thesis
    using b unfolding zip_add_file_def benign_def by (auto split: sum.splits)
qed

lemma bundle_loop_quiet:
  assumes q: "quiet E"
  shows "\<exists>zf'. bundle_loop E zf files = Inr zf'"
proof (induction files arbitrary: zf)
  case Nil
  show ?case by simp
next
  case (Cons rel files)
  obtain zf1 where z: "zip_add_file zf (fs E rel) rel = Inr zf1"
    using zip_add_file_quiet [OF q] by blast
  show ?case using Cons [of zf] Cons [of zf1] z by simp
qed

lemma children_loop_quiet:
  assumes q: "quiet E"
  shows "\<exists>zf'. children_loop E zf cs = Inr zf'"
proof (induction cs arbitrary: zf)
  case Nil
  show ?case by simp
next
  case (Cons c cs)
  obtain zf1 where z: "zip_add_file zf (fs E c) c = Inr zf1"
    using zip_add_file_quiet [OF q] by blast
  show ?case using Cons [of zf] Cons [of zf1] z by simp
qed

lemma full_loop_quiet:
  assumes q: "quiet E"
  shows "\<exists>zf'. full_loop E zf cs = Inr zf'"
proof (induction cs arbitrary: zf)
  case Nil
  show ?case by simp
next
  case (Cons c cs)
  obtain zf1 where z: "zip_add_file zf (fs E c) c = Inr zf1"
    using zip_add_file_quiet [OF q] by blast
  show ?case using Cons [of zf] Cons [of zf1] z by simp
qed

lemma metadata_loop_quiet:
  assumes q: "quiet E"
  shows "\<exists>zf'. metadata_loop E zf roots = Inr zf'"
proof (induction roots arbitrary: zf)
  case Nil
  show ?case by simp
next
  case (Cons r roots)
  obtain zf1 where z: "zip_add_file zf (fs E r) r = Inr zf1"
    using zip_add_file_quiet [OF q] by blast
  obtain zf2 where c: "children_loop E zf (rglob E r) = Inr zf2"
    using children_loop_quiet [OF q] by blast
  have b: "benign (read_text (fs E r))" using q unfolding quiet_def by blast
  have t: "\<exists>zf'. (case read_text (fs E r) of
           Inr text \<Rightarrow> metadata_loop E (zf @ [(r, sanitize_git_config text)]) roots
         | Inl e \<Rightarrow> if is_OSError e then metadata_loop E zf roots else Inl (EnvError e)) = Inr zf'"
  proof (cases "read_text (fs E r)")
    case (Inl e)
    then have "e = FileNotFoundError" using b unfolding benign_def by simp
    then show ?thesis using Inl Cons [of zf] by (simp add: is_OSError_def)
  next
    case (Inr cfg)
    then show ?thesis using Cons [of "zf @ [(r, sanitize_git_config cfg)]"] by simp
  qed
  show ?case using Cons [of zf] Cons [of zf1] Cons [of zf2] z c t by auto
qed

lemma zip_add_git_dir_quiet:
  assumes q: "quiet E" and m: "include_git \<in> {''none'', ''metadata'', ''full''}"
  shows "\<exists>zf'. zip_add_git_dir E zf include_git = Inr zf'"
  using m zip_add_file_quiet [OF q, of zf "''.git''" "''.git''"]
    metadata_loop_quiet [OF q, of zf allow_roots] full_loop_quiet [OF q, of zf "rglob E ''.git''"]
  unfolding zip_add_git_dir_def by auto

lemma with_zip_file_quiet:
  assumes q: "quiet E" and m: "include_git \<in> {''none'', ''metadata'', ''full''}"
  shows "\<exists>zf. with_zip_file E files include_git = Inr zf"
proof -
  obtain zf1 where b: "bundle_loop E [] files = Inr zf1" using bundle_loop_quiet [OF q] by blast
  obtain zf2 where g: "zip_add_git_dir E zf1 include_git = Inr zf2"
    using zip_add_git_dir_quiet [OF q m] by blast
  have "zip_open E = None" "zip_close E = None" using q unfolding quiet_def by blast+
  then show ?thesis unfolding with_zip_file_def using b g by simp
qed

lemma iter_repo_files_quiet:
  assumes q: "quiet E"
  shows "\<exists>files. iter_repo_files_excluding_ignored E = Inr files"
proof -
  have r: "\<exists>out. run_git E args = Inr out" for args using q unfolding quiet_def by blast
  obtain o1 where o1: "run_git E [''ls-files'', ''-z''] = Inr o1" using r by blast
  obtain o2 where o2: "run_git E [''ls-files'', ''-z'', ''--others'', ''--exclude-standard''] = Inr o2"
    using r by blast
  show ?thesis unfolding iter_repo_files_excluding_ignored_def git_ls_files_def using o1 o2 by simp
qed

lemma measured_size_quiet:
  assumes q: "quiet E" and m: "include_git \<in> {''none'', ''metadata'', ''full''}"
  shows "measured_size E include_git \<noteq> None"
proof -
  obtain files where f: "iter_repo_files_excluding_ignored E = Inr files"
    using iter_repo_files_quiet [OF q] by blast
  obtain zf where w: "with_zip_file E files include_git = Inr zf"
    using with_zip_file_quiet [OF q m] by blast
  have "mkdir E = None" using q unfolding quiet_def by blast
  moreover obtain n where "stat_size E zf = Inr n" using q unfolding quiet_def by blast
  ultimately show ?thesis unfolding measured_size_def using f w by simp
qed

lemma create_measured:
  assumes "measured_size E include_git = Some n"
  shows "create_repo_bundle_zip E artifact_dir include_git max_zip_bytes =
      (if n > max_zip_bytes then
         Inl (RuntimeError
           (''Bundle zip is '' @ str_int n @ '' bytes, exceeds limit '' @ str_int max_zip_bytes
            @ ''. Use --max-zip-bytes to raise the limit or set --include-git none.''))
       else Inr (artifact_dir @ [''bundle.zip'']))"
  using assms unfolding measured_size_def create_repo_bundle_zip_def
  by (auto simp: Let_def split: option.splits sum.splits)

lemma bundle_loop_no_RuntimeError: "bundle_loop E zf files \<noteq> Inl (RuntimeError m)"
  by (induction files arbitrary: zf) (auto simp: zip_add_file_def split: sum.splits)

lemma zip_add_file_no_RuntimeError: "zip_add_file zf f a \<noteq> Inl (RuntimeError m)"
  by (auto simp: zip_add_file_def split: sum.splits)

lemma children_loop_no_RuntimeError: "children_loop E zf cs \<noteq> Inl (RuntimeError m)"
  by (induction cs arbitrary: zf) (auto simp: zip_add_file_def split: sum.splits)

lemma full_loop_no_RuntimeError: "full_loop E zf cs \<noteq> Inl (RuntimeError m)"
  by (induction cs arbitrary: zf) (auto simp: zip_add_file_def split: sum.splits)

lemma metadata_loop_no_RuntimeError: "metadata_loop E zf roots \<noteq> Inl (RuntimeError m)"
proof (induction roots arbitrary: zf)
  case Nil
  show ?case by simp
next
  case (Cons r roots)
  show ?case
    using Cons children_loop_no_RuntimeError [of E zf "rglob E r" m]
      zip_add_file_no_RuntimeError [of zf "fs E r" r m]
    by (auto split: sum.splits)
qed

lemma zip_add_git_dir_no_RuntimeError: "zip_add_git_dir E zf include_git \<noteq> Inl (RuntimeError m)"
  using zip_add_file_no_RuntimeError metadata_loop_no_RuntimeError full_loop_no_RuntimeError
  unfolding zip_add_git_dir_def by simp

lemma with_zip_file_no_RuntimeError: "with_zip_file E files include_git \<noteq> Inl (RuntimeError m)"
  using bundle_loop_no_RuntimeError [of E "[]" files m] zip_add_git_dir_no_RuntimeError
  unfolding with_zip_file_def by (auto simp: Let_def split: option.splits sum.splits)

lemma create_unmeasured:
  assumes "measured_size E include_git = None"
  shows "\<exists>e. create_repo_bundle_zip E artifact_dir include_git max_zip_bytes = Inl e
      \<and> (\<forall>m. e \<noteq> RuntimeError m)"
  using assms with_zip_file_no_RuntimeError
  unfolding measured_size_def create_repo_bundle_zip_def
  by (auto simp: Let_def split: option.splits sum.splits)

section \<open>Patch safety gate: the claims\<close>

text \<open>
  Claim C1. For every diff text the gate returns true exactly when some metadata line
  (\<open>diff --git\<close>, \<open>---\<close> or \<open>+++\<close>), after the conventional \<open>a/\<close> or \<open>b/\<close> prefix is removed
  and the marker \<open>/dev/null\<close> is skipped, names a path equal to \<open>.git\<close> or beginning with
  \<open>.git/\<close>. In particular it is true for every diff that has the line
  \<open>diff --git a/.git/config b/.git/config\<close> and false for the diff that consists of
  \<open>diff --git a/.gitignore b/.gitignore\<close>.
\<close>

theorem gate_exact:
  "(diff_touches_git_dir d \<longleftrightarrow>
      (\<exists>line\<in>set (splitlines d). header_line_trips line \<or> file_line_trips line))
   \<and> (''diff --git a/.git/config b/.git/config'' \<in> set (splitlines d) \<longrightarrow> diff_touches_git_dir d)
   \<and> \<not> diff_touches_git_dir ''diff --git a/.gitignore b/.gitignore''"
proof (intro conjI impI)
  show g: "diff_touches_git_dir d \<longleftrightarrow>
      (\<exists>line\<in>set (splitlines d). header_line_trips line \<or> file_line_trips line)"
    by (simp add: diff_touches_git_dir_def touches_loop_iff)
  have t: "touches_loop [''diff --git a/.git/config b/.git/config'']"
    by code_simp
  then have "header_line_trips ''diff --git a/.git/config b/.git/config''
      \<or> file_line_trips ''diff --git a/.git/config b/.git/config''"
    unfolding touches_loop_Cons by simp
  then show "diff_touches_git_dir d"
    if "''diff --git a/.git/config b/.git/config'' \<in> set (splitlines d)"
    using that g by blast
  show "\<not> diff_touches_git_dir ''diff --git a/.gitignore b/.gitignore''"
    by code_simp
qed

text \<open>The gate on a diff that has the header of claim C1 and a \<open>---\<close> line.\<close>

theorem gate_exact_witness:
  "''diff --git a/.git/config b/.git/config''
     \<in> set (splitlines ''diff --git a/.git/config b/.git/config\<newline>--- a/.git/config\<newline>'')
   \<and> diff_touches_git_dir ''diff --git a/.git/config b/.git/config\<newline>--- a/.git/config\<newline>''
   \<and> (\<exists>line\<in>set (splitlines ''diff --git a/.git/config b/.git/config\<newline>--- a/.git/config\<newline>'').
        header_line_trips line \<or> file_line_trips line)"
proof -
  have h: "''diff --git a/.git/config b/.git/config''
     \<in> set (splitlines ''diff --git a/.git/config b/.git/config\<newline>--- a/.git/config\<newline>'')"
    by code_simp
  show ?thesis
    using h gate_exact [of "''diff --git a/.git/config b/.git/config\<newline>--- a/.git/config\<newline>''"]
    by blast
qed

text \<open>
  Claim C10. For every text in which no line starts with \<open>diff --git \<close>, \<open>--- \<close> or
  \<open>+++ \<close> the gate returns false; the empty text and the text of one newline are such texts.
\<close>

theorem gate_ignores_other_lines:
  "((\<forall>line\<in>set (splitlines d).
       \<not> startswith line ''diff --git '' \<and> \<not> startswith line ''--- '' \<and> \<not> startswith line ''+++ '')
     \<longrightarrow> \<not> diff_touches_git_dir d)
   \<and> \<not> diff_touches_git_dir []
   \<and> \<not> diff_touches_git_dir [LF]"
proof (intro conjI impI)
  assume "\<forall>line\<in>set (splitlines d).
       \<not> startswith line ''diff --git '' \<and> \<not> startswith line ''--- '' \<and> \<not> startswith line ''+++ ''"
  then have "\<forall>line\<in>set (splitlines d). \<not> (header_line_trips line \<or> file_line_trips line)"
    by (auto simp: header_line_trips_def file_line_trips_def)
  then show "\<not> diff_touches_git_dir d"
    by (simp add: diff_touches_git_dir_def touches_loop_iff)
next
  show "\<not> diff_touches_git_dir []"
    by (simp add: diff_touches_git_dir_def splitlines_def)
next
  show "\<not> diff_touches_git_dir [LF]"
    by (simp add: diff_touches_git_dir_def splitlines_def is_linebreak_def LF_def startswith_def)
qed

text \<open>A hunk without any metadata line, although its body mentions \<open>.git/config\<close>.\<close>

theorem gate_ignores_other_lines_witness:
  "\<not> diff_touches_git_dir ''index 1..2\<newline>@@ -1 +1 @@\<newline>-a .git/config\<newline>+b\<newline>''"
proof -
  have h: "\<forall>line\<in>set (splitlines ''index 1..2\<newline>@@ -1 +1 @@\<newline>-a .git/config\<newline>+b\<newline>'').
       \<not> startswith line ''diff --git '' \<and> \<not> startswith line ''--- '' \<and> \<not> startswith line ''+++ ''"
    by code_simp
  show ?thesis
    using h gate_ignores_other_lines [of "''index 1..2\<newline>@@ -1 +1 @@\<newline>-a .git/config\<newline>+b\<newline>''"]
    by blast
qed

section \<open>Response text extractor: the claims\<close>

text \<open>
  Claim C2. For every text \<open>extract_patch\<close> follows this search order: when the text has
  a \<open>```diff\<close> fenced block, the result is the interior of the first such block, trimmed,
  with one newline after it; otherwise, when the text contains \<open>diff --git \<close>, the result
  is the text from the first occurrence on, trimmed, with one newline after it; otherwise
  there is no result. A result ends with exactly one newline: what stands before the
  newline has no whitespace at its end.
\<close>

theorem extract_patch_search_order:
  "extract_patch text =
     (case fenced_diff_block text of
        Some interior \<Rightarrow> Some (strip interior @ [LF])
      | None \<Rightarrow>
          (case first_index text ''diff --git '' of
             Some k \<Rightarrow> Some (strip (drop k text) @ [LF])
           | None \<Rightarrow> None))
   \<and> (case extract_patch text of
        None \<Rightarrow> True
      | Some p \<Rightarrow> p \<noteq> [] \<and> last p = LF \<and> rstrip (butlast p) = butlast p)"
proof
  show eq: "extract_patch text =
     (case fenced_diff_block text of
        Some interior \<Rightarrow> Some (strip interior @ [LF])
      | None \<Rightarrow>
          (case first_index text ''diff --git '' of
             Some k \<Rightarrow> Some (strip (drop k text) @ [LF])
           | None \<Rightarrow> None))"
  proof (cases "fenced_diff_block text")
    case None
    then have "rx_search DIFF_FENCE text = None" by (rule diff_fence_search_None)
    then show ?thesis using None
      by (simp add: extract_patch_def first_index_def Let_def)
  next
    case (Some interior)
    from diff_fence_search_Some [OF this] obtain m where
      "rx_search DIFF_FENCE text = Some m" "mgroup m 1 = strip interior" by blast
    then show ?thesis using Some by (simp add: extract_patch_def)
  qed
  show "case extract_patch text of
        None \<Rightarrow> True
      | Some p \<Rightarrow> p \<noteq> [] \<and> last p = LF \<and> rstrip (butlast p) = butlast p"
    unfolding eq by (simp split: option.splits)
qed

text \<open>
  Claim C8. There are texts with a \<open>```diff\<close> fenced block of empty or whitespace-only
  interior on which \<open>extract_patch\<close> returns the text of one newline, not \<open>None\<close>.
\<close>

theorem empty_fence_is_a_patch:
  "extract_patch ''```diff\<newline>```'' = Some ''\<newline>''
   \<and> extract_patch ''Patch:\<newline>```diff  \<newline>  ```\<newline>'' = Some ''\<newline>''"
  by code_simp

section \<open>Archive builder: the claims\<close>

text \<open>
  Claim C5. The size ceiling is enforced after the archive is written. Whenever the archive
  has been written and measured, the build fails with the \<open>RuntimeError\<close> of the ceiling if
  the size exceeds the ceiling and returns the archive path otherwise; the numbers that the
  message carries are the size and the ceiling, in this order. When no size has been measured
  the build ends with another error and returns no path. So the error of the ceiling is raised
  exactly when a measured size exceeds the ceiling, and a path is returned exactly when a
  measured size is at or below it. In a quiet environment, with one of the three inclusion
  modes of the contract, the archive is always written and measured.
\<close>

theorem archive_size_ceiling:
  "(\<forall>n. measured_size E include_git = Some n \<longrightarrow>
      create_repo_bundle_zip E artifact_dir include_git max_zip_bytes =
        (if n > max_zip_bytes then
           Inl (RuntimeError
             (''Bundle zip is '' @ str_int n @ '' bytes, exceeds limit '' @ str_int max_zip_bytes
              @ ''. Use --max-zip-bytes to raise the limit or set --include-git none.''))
         else Inr (artifact_dir @ [''bundle.zip'']))
      \<and> numbers_in
          (''Bundle zip is '' @ str_int n @ '' bytes, exceeds limit '' @ str_int max_zip_bytes
           @ ''. Use --max-zip-bytes to raise the limit or set --include-git none.'')
        = [n, max_zip_bytes])
   \<and> (measured_size E include_git = None \<longrightarrow>
        (\<exists>e. create_repo_bundle_zip E artifact_dir include_git max_zip_bytes = Inl e
           \<and> (\<forall>m. e \<noteq> RuntimeError m)))
   \<and> ((\<exists>m. create_repo_bundle_zip E artifact_dir include_git max_zip_bytes = Inl (RuntimeError m))
        \<longleftrightarrow> (\<exists>n. measured_size E include_git = Some n \<and> n > max_zip_bytes))
   \<and> ((\<exists>p. create_repo_bundle_zip E artifact_dir include_git max_zip_bytes = Inr p)
        \<longleftrightarrow> (\<exists>n. measured_size E include_git = Some n \<and> n \<le> max_zip_bytes))
   \<and> (quiet E \<and> include_git \<in> {''none'', ''metadata'', ''full''} \<longrightarrow>
        measured_size E include_git \<noteq> None)"
proof (intro conjI allI impI)
  fix n assume "measured_size E include_git = Some n"
  then show "create_repo_bundle_zip E artifact_dir include_git max_zip_bytes =
        (if n > max_zip_bytes then
           Inl (RuntimeError
             (''Bundle zip is '' @ str_int n @ '' bytes, exceeds limit '' @ str_int max_zip_bytes
              @ ''. Use --max-zip-bytes to raise the limit or set --include-git none.''))
         else Inr (artifact_dir @ [''bundle.zip'']))"
    by (rule create_measured)
next
  fix n
  show "numbers_in
          (''Bundle zip is '' @ str_int n @ '' bytes, exceeds limit '' @ str_int max_zip_bytes
           @ ''. Use --max-zip-bytes to raise the limit or set --include-git none.'')
        = [n, max_zip_bytes]"
    by (rule numbers_in_message)
next
  assume "measured_size E include_git = None"
  then show "\<exists>e. create_repo_bundle_zip E artifact_dir include_git max_zip_bytes = Inl e
           \<and> (\<forall>m. e \<noteq> RuntimeError m)"
    by (rule create_unmeasured)
next
  show "(\<exists>m. create_repo_bundle_zip E artifact_dir include_git max_zip_bytes = Inl (RuntimeError m))
        \<longleftrightarrow> (\<exists>n. measured_size E include_git = Some n \<and> n > max_zip_bytes)"
  proof (cases "measured_size E include_git")
    case None
    from create_unmeasured [OF this, of artifact_dir max_zip_bytes] show ?thesis
      using None by auto
  next
    case (Some n)
    from create_measured [OF this, of artifact_dir max_zip_bytes] show ?thesis
      using Some by auto
  qed
next
  show "(\<exists>p. create_repo_bundle_zip E artifact_dir include_git max_zip_bytes = Inr p)
        \<longleftrightarrow> (\<exists>n. measured_size E include_git = Some n \<and> n \<le> max_zip_bytes)"
  proof (cases "measured_size E include_git")
    case None
    from create_unmeasured [OF this, of artifact_dir max_zip_bytes] show ?thesis
      using None by auto
  next
    case (Some n)
    from create_measured [OF this, of artifact_dir max_zip_bytes] show ?thesis
      using Some by auto
  qed
next
  assume "quiet E \<and> include_git \<in> {''none'', ''metadata'', ''full''}"
  then show "measured_size E include_git \<noteq> None"
    using measured_size_quiet by blast
qed

text \<open>
  The claim at a repository with one listed file and a git directory that holds a
  configuration file: eleven bytes are written; a ceiling of ten fails the build, a ceiling of
  eleven returns the path, and an unknown inclusion mode ends the build with another error.
\<close>

theorem archive_size_ceiling_witness:
  "(let E = \<lparr>mkdir = None,
        run_git = (\<lambda>args. if args = [''ls-files'', ''-z''] then Inr [''a.txt'', ''.git/HEAD'', '''']
                           else Inr [''notes.txt'', ''a.txt'']),
        zip_open = None,
        zip_close = None,
        inside_artifact_dir = (\<lambda>p. False),
        fs = (\<lambda>p. \<lparr>path_exists = (p = ''a.txt'' \<or> p = ''.git'' \<or> p = ''.git/config''),
                   is_file = (p = ''a.txt'' \<or> p = ''.git/config''),
                   is_dir = (p = ''.git''),
                   is_symlink = False,
                   readlink = Inl FileNotFoundError,
                   file_bytes = (if p = ''a.txt'' then Inr ''hello'' else Inl FileNotFoundError),
                   read_text = (if p = ''.git/config'' then Inr ''[core]'' else Inl FileNotFoundError)\<rparr>),
        rglob = (\<lambda>p. []),
        stat_size = (\<lambda>zf. Inr (sum_list (map (\<lambda>entry. int (length (snd entry))) zf)))\<rparr>
    in create_repo_bundle_zip E [''out''] ''metadata'' 10 =
         Inl (RuntimeError
           ''Bundle zip is 11 bytes, exceeds limit 10. Use --max-zip-bytes to raise the limit or set --include-git none.'')
       \<and> create_repo_bundle_zip E [''out''] ''metadata'' 11 = Inr [''out'', ''bundle.zip'']
       \<and> (\<exists>e. create_repo_bundle_zip E [''out''] ''bogus'' 11 = Inl e \<and> (\<forall>m. e \<noteq> RuntimeError m)))"
  (is "Let ?E ?P")
proof -
  have q: "quiet ?E" by (simp add: quiet_def benign_def)
  have m: "measured_size ?E ''metadata'' = Some 11" by code_simp
  have u: "measured_size ?E ''bogus'' = None" by code_simp
  have s: "str_int 10 = ''10''" "str_int 11 = ''11''" by code_simp+
  have "measured_size ?E ''metadata'' \<noteq> None"
    using archive_size_ceiling [of ?E "''metadata''" "[''out'']" 10] q by simp
  have a: "create_repo_bundle_zip ?E [''out''] ''metadata'' 10 =
         Inl (RuntimeError
           ''Bundle zip is 11 bytes, exceeds limit 10. Use --max-zip-bytes to raise the limit or set --include-git none.'')"
    using archive_size_ceiling [of ?E "''metadata''" "[''out'']" 10] m s by simp
  have b: "create_repo_bundle_zip ?E [''out''] ''metadata'' 11 = Inr [''out'', ''bundle.zip'']"
    using archive_size_ceiling [of ?E "''metadata''" "[''out'']" 11] m by simp
  have c: "\<exists>e. create_repo_bundle_zip ?E [''out''] ''bogus'' 11 = Inl e \<and> (\<forall>m. e \<noteq> RuntimeError m)"
    using archive_size_ceiling [of ?E "''bogus''" "[''out'']" 11] u by simp
  show ?thesis unfolding Let_def using a b c by blast
qed

section \<open>Wait coordinator: the claims\<close>

text \<open>
  Claim C6, as stated, asks for a warning at every changed reading that is not empty and has
  no patch. A changed reading of one blank has no patch and is not empty, yet the turn logs
  no warning.
\<close>

theorem wait_blank_reading_counterexample:
  "'' '' \<noteq> [] \<and> extract_patch '' '' = None
   \<and> wait_for_manual_response id ''response.md'' 30 [Content '' '']
       = (None, Some '' '', [Extracted '' '', Slept 30])"
  by code_simp

text \<open>
  Claim C6, amended. At any turn of the local-file wait that reads the file: a reading whose
  digest equals the last seen digest calls no extraction and does not end the wait; a reading
  with a changed digest that has no patch and has a character that is not whitespace logs a
  warning and the wait goes on; a reading with a changed digest that has a patch ends the wait
  and returns the text read.
\<close>

theorem wait_turn:
  "(last_seen = Some (sha256 text) \<longrightarrow>
      wait_loop sha256 path interval last_seen log (Content text # polls)
        = wait_loop sha256 path interval last_seen (log @ [Slept (max 1 interval)]) polls)
   \<and> (last_seen \<noteq> Some (sha256 text) \<and> extract_patch text = None \<and> strip text \<noteq> [] \<longrightarrow>
      wait_loop sha256 path interval last_seen log (Content text # polls)
        = wait_loop sha256 path interval (Some (sha256 text))
            (log @ [Extracted text, Warned, Slept (max 1 interval)]) polls)
   \<and> (last_seen \<noteq> Some (sha256 text) \<and> extract_patch text \<noteq> None \<longrightarrow>
      wait_loop sha256 path interval last_seen log (Content text # polls)
        = (Some (Inr text), Some (sha256 text), log @ [Extracted text]))"
proof (intro conjI impI)
  assume "last_seen = Some (sha256 text)"
  then show "wait_loop sha256 path interval last_seen log (Content text # polls)
        = wait_loop sha256 path interval last_seen (log @ [Slept (max 1 interval)]) polls"
    by (simp add: Let_def)
next
  assume "last_seen \<noteq> Some (sha256 text) \<and> extract_patch text = None \<and> strip text \<noteq> []"
  then show "wait_loop sha256 path interval last_seen log (Content text # polls)
        = wait_loop sha256 path interval (Some (sha256 text))
            (log @ [Extracted text, Warned, Slept (max 1 interval)]) polls"
    by (simp add: Let_def truthy_def)
next
  assume h: "last_seen \<noteq> Some (sha256 text) \<and> extract_patch text \<noteq> None"
  then obtain p where p: "extract_patch text = Some p" by blast
  then have "p \<noteq> []" by (rule extract_patch_nonempty)
  with p have "truthy (extract_patch text)" by (simp add: truthy_def)
  with h show "wait_loop sha256 path interval last_seen log (Content text # polls)
        = (Some (Inr text), Some (sha256 text), log @ [Extracted text])"
    by (simp add: Let_def)
qed

text \<open>Three readings: a draft without a patch, the same draft again, a text with a patch.\<close>

theorem wait_turn_witness:
  "wait_loop id ''response.md'' 30 None [] [Content ''draft'', Content ''draft'', Content ''```diff x```'']
     = (Some (Inr ''```diff x```''), Some ''```diff x```'',
        [Extracted ''draft'', Warned, Slept 30, Slept 30, Extracted ''```diff x```''])"
proof -
  have a: "None \<noteq> Some (id ''draft'') \<and> extract_patch ''draft'' = None \<and> strip ''draft'' \<noteq> []"
    by code_simp
  have b: "Some (id ''draft'') = Some (id ''draft'')" by simp
  have c: "Some (id ''draft'') \<noteq> Some (id ''```diff x```'') \<and> extract_patch ''```diff x```'' \<noteq> None"
    by code_simp
  note t1 = wait_turn [of None id "''draft''" "''response.md''" 30 "[]"
      "[Content ''draft'', Content ''```diff x```'']", THEN conjunct2, THEN conjunct1, rule_format, OF a]
  note t2 = wait_turn [of "Some (id ''draft'')" id "''draft''" "''response.md''" 30
      "[] @ [Extracted ''draft'', Warned, Slept (max 1 30)]"
      "[Content ''```diff x```'']", THEN conjunct1, rule_format, OF b]
  note t3 = wait_turn [of "Some (id ''draft'')" id "''```diff x```''" "''response.md''" 30
      "([] @ [Extracted ''draft'', Warned, Slept (max 1 30)]) @ [Slept (max 1 30)]"
      "[]", THEN conjunct2, THEN conjunct2, rule_format, OF c]
  show ?thesis unfolding t1 t2 t3 by simp
qed

section \<open>Post-apply steps extractor: the claims\<close>

text \<open>
  Claim C7, as stated, finds a heading with or without leading heading markers and with or
  without a trailing colon. A line with heading markers and a trailing colon is not found: on
  this text nothing is extracted.
\<close>

theorem marked_heading_with_colon_counterexample:
  "extract_post_apply_steps ''## Post-apply steps:\<newline>run tests\<newline>'' = None"
  by code_simp

text \<open>
  Claim C7, amended. For every text \<open>extract_post_apply_steps\<close> finds the first line that is
  a heading of one of two forms, compared without regard to case and between optional
  whitespace: heading markers and the words with no colon, or the words alone with an optional
  colon. It returns the lines after it up to, and without, the first line that after optional
  whitespace has one or more heading markers followed, after optional whitespace, by a
  character that is no whitespace, or up to the end of the text, joined by newlines and
  trimmed; it returns \<open>None\<close> when no line is a heading or the trimmed text is empty.
\<close>

theorem steps_after_first_heading:
  "extract_post_apply_steps text = steps_after_heading text"
proof (cases "find_start (splitlines text) 0")
  case None
  then have "\<not> (\<exists>l\<in>set (splitlines text). is_steps_heading l)"
    unfolding find_start_None_iff by simp
  then show ?thesis using None
    by (simp add: extract_post_apply_steps_def steps_after_heading_def Let_def)
next
  case (Some k)
  then have "find_start (splitlines text) 0 \<noteq> None" by simp
  then have ex: "\<exists>l\<in>set (splitlines text). is_steps_heading l"
    unfolding find_start_None_iff by simp
  from find_start_Some [OF Some]
  have "drop k (splitlines text) = tl (dropWhile (\<lambda>l. \<not> is_steps_heading l) (splitlines text))"
    by simp
  then show ?thesis using Some ex
    by (simp add: extract_post_apply_steps_def steps_after_heading_def Let_def
        collect_steps_takeWhile)
qed

text \<open>The response of the third end-to-end scenario of the specification.\<close>

theorem steps_after_first_heading_witness:
  "steps_after_heading ''Patch\<newline>```diff\<newline>diff --git a/x b/x\<newline>```\<newline>## Post-apply steps\<newline>run tests\<newline>''
     = Some ''run tests''"
proof -
  have "extract_post_apply_steps ''Patch\<newline>```diff\<newline>diff --git a/x b/x\<newline>```\<newline>## Post-apply steps\<newline>run tests\<newline>''
     = Some ''run tests''"
    by code_simp
  then show ?thesis unfolding steps_after_first_heading .
qed

section \<open>Secret sanitizer: the claims\<close>

text \<open>
  Claim C4, as stated, says that no line of the sanitized output matches the credential-header
  pattern. The line of the second end-to-end scenario is replaced by its key and the mark,
  and the key still matches the pattern.
\<close>

theorem credential_lines_redacted_counterexample:
  "sanitize_git_config ''http.extraHeader = Authorization: Bearer secret123''
     = ''http.extraHeader = <redacted>''
   \<and> rx_search EXTRAHEADER ''http.extraHeader = <redacted>'' \<noteq> None"
  by code_simp

text \<open>
  Claim C4, amended. For every configuration text the output is made of one sanitized line
  for each input line, and every input line that matches the credential-header pattern is
  replaced by its redacted form: the text before its first equals sign followed by
  \<open>= <redacted>\<close>, or \<open><redacted>\<close> alone when it has no equals sign. The text after the
  first equals sign has no part in the replacement.
\<close>

theorem credential_lines_redacted:
  "sanitize_git_config raw
     = str_join [LF] (sanitize_loop [] (splitlines raw)) @ (if endswith raw [LF] then [LF] else [])
   \<and> length (sanitize_loop [] (splitlines raw)) = length (splitlines raw)
   \<and> (\<forall>i<length (splitlines raw). credential_header (splitlines raw ! i) \<longrightarrow>
         sanitize_loop [] (splitlines raw) ! i = redacted (splitlines raw ! i))
   \<and> (CHR ''='' \<notin> set key \<longrightarrow> redacted (key @ ''='' @ v) = key @ ''= <redacted>'')"
proof (intro conjI allI impI)
  show "sanitize_git_config raw
     = str_join [LF] (sanitize_loop [] (splitlines raw)) @ (if endswith raw [LF] then [LF] else [])"
    by (simp add: sanitize_git_config_def Let_def)
next
  show "length (sanitize_loop [] (splitlines raw)) = length (splitlines raw)"
    by (simp add: sanitize_loop_map)
next
  fix i assume "i < length (splitlines raw)" and "credential_header (splitlines raw ! i)"
  then show "sanitize_loop [] (splitlines raw) ! i = redacted (splitlines raw ! i)"
    by (simp add: sanitize_loop_map sanitize_line_credential)
next
  assume "CHR ''='' \<notin> set key"
  then show "redacted (key @ ''='' @ v) = key @ ''= <redacted>''"
    by (rule redacted_drops_value)
qed

text \<open>A configuration with a bearer token in the second line.\<close>

theorem credential_lines_redacted_witness:
  "sanitize_loop [] (splitlines ''[http]\<newline>  extraHeader = Authorization: Bearer secret123\<newline>'') ! 1
     = ''  extraHeader = <redacted>''"
proof -
  have l: "(1::nat) < length (splitlines ''[http]\<newline>  extraHeader = Authorization: Bearer secret123\<newline>'')"
    by code_simp
  have n: "splitlines ''[http]\<newline>  extraHeader = Authorization: Bearer secret123\<newline>'' ! 1
      = ''  extraHeader '' @ ''='' @ '' Authorization: Bearer secret123''"
    by code_simp
  have "rx_search EXTRAHEADER (''  extraHeader '' @ ''='' @ '' Authorization: Bearer secret123'') \<noteq> None"
    by code_simp
  then have c: "credential_header (splitlines ''[http]\<newline>  extraHeader = Authorization: Bearer secret123\<newline>'' ! 1)"
    unfolding n extraheader_iff .
  have k: "CHR ''='' \<notin> set ''  extraHeader ''" by simp
  note t = credential_lines_redacted [of "''[http]\<newline>  extraHeader = Authorization: Bearer secret123\<newline>''"
      "''  extraHeader ''" "'' Authorization: Bearer secret123''"]
  from t have "sanitize_loop [] (splitlines ''[http]\<newline>  extraHeader = Authorization: Bearer secret123\<newline>'') ! 1
      = redacted (splitlines ''[http]\<newline>  extraHeader = Authorization: Bearer secret123\<newline>'' ! 1)"
    using l c by blast
  moreover from t k have "redacted (''  extraHeader '' @ ''='' @ '' Authorization: Bearer secret123'')
      = ''  extraHeader '' @ ''= <redacted>''" by blast
  ultimately show ?thesis unfolding n by simp
qed

text \<open>
  Claim C9, as stated, says that the output has one line for each input line. A last line
  of blanks that no newline ends is trimmed to the empty text and is no line of the output.
\<close>

theorem line_count_counterexample:
  "length (splitlines ''a\<newline>  '') = 2
   \<and> length (splitlines (sanitize_git_config ''a\<newline>  '')) = 1"
  by code_simp

text \<open>
  Claim C9, amended. For every configuration text the sanitizer makes exactly one sanitized
  line for each input line and joins them by newlines. The output text has as many lines as
  the input whenever the input ends with a newline, is empty, or has a last line with a
  character that is not whitespace.
\<close>

theorem line_count_preserved:
  "length (sanitize_loop [] (splitlines raw)) = length (splitlines raw)
   \<and> sanitize_git_config raw
       = str_join [LF] (sanitize_loop [] (splitlines raw)) @ (if endswith raw [LF] then [LF] else [])
   \<and> (endswith raw [LF] \<or> splitlines raw = [] \<or> strip (last (splitlines raw)) \<noteq> [] \<longrightarrow>
        length (splitlines (sanitize_git_config raw)) = length (splitlines raw))"
proof (intro conjI impI)
  show len: "length (sanitize_loop [] (splitlines raw)) = length (splitlines raw)"
    by (simp add: sanitize_loop_map)
  show out: "sanitize_git_config raw
       = str_join [LF] (sanitize_loop [] (splitlines raw)) @ (if endswith raw [LF] then [LF] else [])"
    by (simp add: sanitize_git_config_def Let_def)
  assume h: "endswith raw [LF] \<or> splitlines raw = [] \<or> strip (last (splitlines raw)) \<noteq> []"
  define L where "L = sanitize_loop [] (splitlines raw)"
  have Lmap: "L = map sanitize_line (splitlines raw)" by (simp add: L_def sanitize_loop_map)
  have bf: "\<forall>l\<in>set L. \<forall>c\<in>set l. \<not> is_linebreak c"
  proof
    fix l assume "l \<in> set L"
    then obtain l0 where l0: "l0 \<in> set (splitlines raw)" "l = sanitize_line l0"
      unfolding Lmap by auto
    have "\<forall>c\<in>set l0. \<not> is_linebreak c" using splitlines_no_breaks [OF l0(1)] by blast
    then show "\<forall>c\<in>set l. \<not> is_linebreak c" unfolding l0(2) by (rule sanitize_line_no_breaks)
  qed
  have "splitlines (sanitize_git_config raw) = L"
  proof (cases "endswith raw [LF]")
    case True
    then have "raw \<noteq> []" by (simp add: endswith_LF_iff)
    then have "L \<noteq> []" unfolding Lmap by (simp add: splitlines_Nil_iff)
    then have "splitlines (str_join [LF] L @ [LF]) = L" using bf by (intro splitlines_join_LF)
    then show ?thesis using True unfolding out L_def by simp
  next
    case False
    show ?thesis
    proof (cases "splitlines raw = []")
      case e: True
      have "L = []" unfolding Lmap using e by simp
      moreover have "sanitize_git_config raw = []" unfolding out using e False by simp
      moreover have "splitlines [] = []" by (simp add: splitlines_def)
      ultimately show ?thesis by simp
    next
      case ne: False
      with h False have s: "strip (last (splitlines raw)) \<noteq> []" by simp
      have lm: "last (splitlines raw) \<in> set (splitlines raw)" using ne by simp
      have "\<not> is_linebreak c" if "c \<in> set (last (splitlines raw))" for c
        using splitlines_no_breaks [OF lm that] .
      then have "LF \<notin> set (last (splitlines raw))" using is_linebreak_LF by blast
      then have "sanitize_line (last (splitlines raw)) \<noteq> []"
        using s by (intro sanitize_line_nonempty)
      then have "last L \<noteq> []" unfolding Lmap using ne by (simp add: last_map)
      moreover have "L \<noteq> []" unfolding Lmap using ne by simp
      ultimately have "splitlines (str_join [LF] L) = L" using bf by (intro splitlines_join)
      then show ?thesis using False unfolding out L_def by simp
    qed
  qed
  then show "length (splitlines (sanitize_git_config raw)) = length (splitlines raw)"
    using len by (simp add: L_def)
qed

text \<open>A configuration whose last line has no newline after it.\<close>

theorem line_count_preserved_witness:
  "length (splitlines (sanitize_git_config ''[remote]\<newline>  url = http://u@h  \<newline>  x''))
     = length (splitlines ''[remote]\<newline>  url = http://u@h  \<newline>  x'')"
proof -
  have "strip (last (splitlines ''[remote]\<newline>  url = http://u@h  \<newline>  x'')) \<noteq> []"
    by code_simp
  then show ?thesis
    using line_count_preserved [of "''[remote]\<newline>  url = http://u@h  \<newline>  x''"] by blast
qed




end
